theory Spec2Isabelle
  imports Main
begin

section \<open>Data model (types.ts)\<close>

text \<open>
  A JavaScript string is a sequence of UTF-16 code units; a code unit is modelled as a
  natural number. \<open>js\<close> embeds an ASCII literal. The CJK literals of the source are
  written as their code units.
\<close>

type_synonym jsstring = "nat list"

definition js :: "string \<Rightarrow> jsstring" where
  "js s = map of_char s"

text \<open>Truthiness of a string and of an optional string (\<open>undefined\<close>, \<open>null\<close> and
  the empty string are falsy).\<close>

definition truthy :: "jsstring option \<Rightarrow> bool" where
  "truthy v = (case v of None \<Rightarrow> False | Some s \<Rightarrow> s \<noteq> [])"

text \<open>\<open>a || b\<close> on optional strings.\<close>

definition or_else :: "jsstring option \<Rightarrow> jsstring option \<Rightarrow> jsstring option" where
  "or_else a b = (if truthy a then a else b)"

text \<open>\<open>a || ''\<close>: an optional string defaulted to the empty string.\<close>

definition or_empty :: "jsstring option \<Rightarrow> jsstring" where
  "or_empty a = (case a of None \<Rightarrow> [] | Some s \<Rightarrow> s)"

datatype status = Pending | Processing | Completed | Error

record CaptionRow =
  row_id :: jsstring
  original :: jsstring
  rewritten :: "jsstring option"
  status :: status
  imagePath :: "jsstring option"
  imageData :: "jsstring option"
  error :: "jsstring option"

record ProcessingStats =
  total :: nat
  completed :: nat
  failed :: nat

record HistorySession =
  session_id :: jsstring
  timestamp :: nat
  name :: jsstring
  stats :: ProcessingStats
  session_data :: "CaptionRow list"

section \<open>Local history (services/storage.ts)\<close>

text \<open>
  Exceptions are values: a function that can throw returns \<open>js_error + 'a\<close>, with
  \<open>Inl\<close> the thrown error. \<open>try_catch\<close> is \<open>try { body } catch (e) { handler(e) }\<close>.
\<close>

datatype js_error = SyntaxError | TypeError | QuotaExceededError | Err jsstring

definition try_catch :: "js_error + 'a \<Rightarrow> (js_error \<Rightarrow> js_error + 'a) \<Rightarrow> js_error + 'a" where
  "try_catch body handler = (case body of Inl e \<Rightarrow> handler e | Inr v \<Rightarrow> Inr v)"

definition bind_js :: "js_error + 'a \<Rightarrow> ('a \<Rightarrow> js_error + 'b) \<Rightarrow> js_error + 'b" where
  "bind_js m f = (case m of Inl e \<Rightarrow> Inl e | Inr v \<Rightarrow> f v)"

text \<open>
  The JSON codec belongs to the JavaScript runtime, not to the repository. A stored text
  is represented by what \<open>JSON.parse\<close> makes of it: either a text that \<open>JSON.parse\<close>
  rejects (\<open>Garbage\<close>, the empty string included), or the encoding of a value
  (\<open>Json\<close>). A decoded value is an array of sessions, or something that is not an
  array and cannot be spread (\<open>null\<close>, a number, an object). A stored JSON string,
  which is no array but would spread into its characters, and an array of other
  things than sessions are not represented.
\<close>

datatype js_value = JArray "HistorySession list" | JOther

datatype raw_text = Garbage jsstring | Json js_value

definition JSON_parse :: "raw_text \<Rightarrow> js_error + js_value" where
  "JSON_parse raw = (case raw of Garbage s \<Rightarrow> Inl SyntaxError | Json v \<Rightarrow> Inr v)"

definition JSON_stringify :: "js_value \<Rightarrow> raw_text" where
  "JSON_stringify v = Json v"

definition raw_truthy :: "raw_text \<Rightarrow> bool" where
  "raw_truthy raw = (case raw of Garbage s \<Rightarrow> s \<noteq> [] | Json v \<Rightarrow> True)"

text \<open>
  \<open>localStorage\<close>: the stored items, and whether the store accepts a text on
  \<open>setItem\<close> (it throws when the quota is exceeded).
\<close>

record localStorage =
  items :: "jsstring \<Rightarrow> raw_text option"
  accepts :: "raw_text \<Rightarrow> bool"

definition getItem :: "localStorage \<Rightarrow> jsstring \<Rightarrow> raw_text option" where
  "getItem ls k = items ls k"

definition setItem :: "localStorage \<Rightarrow> jsstring \<Rightarrow> raw_text \<Rightarrow> js_error + localStorage" where
  "setItem ls k v =
     (if accepts ls v then Inr (ls\<lparr>items := (items ls)(k \<mapsto> v)\<rparr>) else Inl QuotaExceededError)"

definition STORAGE_KEY :: jsstring where
  "STORAGE_KEY = js ''caption_rewriter_history''"

definition stripImageData :: "CaptionRow list \<Rightarrow> CaptionRow list" where
  "stripImageData data = map (\<lambda>row. row\<lparr>imageData := None\<rparr>) data"

definition getSessions :: "localStorage \<Rightarrow> js_error + js_value" where
  "getSessions ls =
     try_catch
       (case getItem ls STORAGE_KEY of
          None \<Rightarrow> Inr (JArray [])
        | Some raw \<Rightarrow> if raw_truthy raw then JSON_parse raw else Inr (JArray []))
       (\<lambda>e. Inr (JArray []))"

text \<open>\<open>[newSession, ...sessions]\<close>: spreading a value that is not iterable throws.\<close>

definition spread_onto :: "HistorySession \<Rightarrow> js_value \<Rightarrow> js_error + HistorySession list" where
  "spread_onto s v = (case v of JArray ss \<Rightarrow> Inr (s # ss) | JOther \<Rightarrow> Inl TypeError)"

text \<open>\<open>uuidv4()\<close>, \<open>Date.now()\<close> and the formatted date come from the environment.\<close>

record save_env =
  uuid :: jsstring
  now :: nat
  label :: jsstring

definition save_failed :: jsstring where
  "save_failed = [20445, 23384, 21382, 21490, 35760, 24405, 22833, 36133, 65292, 21487,
     33021, 26159, 23384, 20648, 31354, 38388, 24050, 28385, 12290]"

definition new_session :: "save_env \<Rightarrow> CaptionRow list \<Rightarrow> ProcessingStats \<Rightarrow> HistorySession" where
  "new_session env rows st =
     \<lparr>session_id = uuid env, timestamp = now env, name = label env,
      stats = st, session_data = stripImageData rows\<rparr>"

definition saveSession ::
  "localStorage \<Rightarrow> save_env \<Rightarrow> CaptionRow list \<Rightarrow> ProcessingStats \<Rightarrow>
     js_error + (HistorySession \<times> localStorage)" where
  "saveSession ls env rows st =
     try_catch
       (bind_js (getSessions ls) (\<lambda>sessions.
          let newSession = new_session env rows st
          in bind_js (spread_onto newSession sessions) (\<lambda>spread.
               let updatedSessions = take 20 spread
               in bind_js (setItem ls STORAGE_KEY (JSON_stringify (JArray updatedSessions)))
                    (\<lambda>ls'. Inr (newSession, ls')))))
       (\<lambda>e. Inl (Err save_failed))"


text \<open>
  The same \<open>data.map(row => ({...row, imageData: undefined}))\<close> on an explicit heap: rows
  and arrays are objects at addresses, an address is a position in the heap, and an
  allocation appends. A dangling or ill-typed address (which JavaScript cannot produce) is
  \<open>None\<close>.
\<close>

datatype obj = RowObj CaptionRow | ArrObj "nat list"

type_synonym heap = "obj list"

definition alloc :: "heap \<Rightarrow> obj \<Rightarrow> nat \<times> heap" where
  "alloc h ob = (length h, h @ [ob])"

definition read_row :: "heap \<Rightarrow> nat \<Rightarrow> CaptionRow option" where
  "read_row h a =
     (if a < length h then (case h ! a of RowObj r \<Rightarrow> Some r | ArrObj _ \<Rightarrow> None) else None)"

fun read_all :: "heap \<Rightarrow> nat list \<Rightarrow> CaptionRow list option" where
  "read_all h [] = Some []"
| "read_all h (a # as) =
     (case read_row h a of
        None \<Rightarrow> None
      | Some r \<Rightarrow> (case read_all h as of None \<Rightarrow> None | Some rs \<Rightarrow> Some (r # rs)))"

definition read_rows :: "heap \<Rightarrow> nat \<Rightarrow> CaptionRow list option" where
  "read_rows h a =
     (if a < length h then (case h ! a of ArrObj as \<Rightarrow> read_all h as | RowObj _ \<Rightarrow> None)
      else None)"

fun strip_each :: "heap \<Rightarrow> nat list \<Rightarrow> (nat list \<times> heap) option" where
  "strip_each h [] = Some ([], h)"
| "strip_each h (a # as) =
     (case read_row h a of
        None \<Rightarrow> None
      | Some row \<Rightarrow>
          (let (a', h1) = alloc h (RowObj (row\<lparr>imageData := None\<rparr>))
           in (case strip_each h1 as of
                 None \<Rightarrow> None
               | Some (as', h2) \<Rightarrow> Some (a' # as', h2))))"

definition stripImageData_heap :: "heap \<Rightarrow> nat \<Rightarrow> (nat \<times> heap) option" where
  "stripImageData_heap h a =
     (if a < length h then
        (case h ! a of
           ArrObj as \<Rightarrow>
             (case strip_each h as of
                None \<Rightarrow> None
              | Some (as', h') \<Rightarrow> Some (alloc h' (ArrObj as')))
         | RowObj _ \<Rightarrow> None)
      else None)"

section \<open>The rewrite API client (services/gemini.ts)\<close>

text \<open>\<open>s.includes(sub)\<close> (the name is a keyword of the prover).\<close>

fun starts_with :: "jsstring \<Rightarrow> jsstring \<Rightarrow> bool" where
  "starts_with s [] = True"
| "starts_with [] (p # ps) = False"
| "starts_with (c # cs) (p # ps) = (c = p \<and> starts_with cs ps)"

fun includes_str :: "jsstring \<Rightarrow> jsstring \<Rightarrow> bool" where
  "includes_str [] sub = (sub = [])"
| "includes_str (c # cs) sub = (starts_with (c # cs) sub \<or> includes_str cs sub)"

record rewrite_input =
  input_text :: "jsstring option"
  input_imageData :: "jsstring option"

record RewriteResult =
  result_rewritten :: jsstring
  extractedOriginal :: "jsstring option"

text \<open>
  The network is the environment. A request is represented by the values that vary in
  it: the chat-completions request by its URL, bearer key, model, system instruction and
  caption text; the Gemini SDK request by its model, system instruction, image payload
  (if any) and caption text (if any), the prompt template around them being fixed.
  A response is what the client reads of it. \<open>reply_json\<close> is \<open>JSON.parse\<close> on a
  model reply followed by the reads of \<open>rewritten\<close> and \<open>extractedOriginal\<close>;
  \<open>None\<close> when either throws.
\<close>

datatype request =
  FetchChat jsstring jsstring jsstring jsstring jsstring
| GenerateContent jsstring jsstring "jsstring option" "jsstring option"

datatype fetch_response =
  FetchThrows "jsstring option"
| HttpNotOk "jsstring option" jsstring
| HttpOk "jsstring option"

datatype sdk_response = SdkThrows "jsstring option" | SdkText "jsstring option"

record network =
  fetch :: "request \<Rightarrow> fetch_response"
  generateContent :: "request \<Rightarrow> sdk_response"
  reply_json :: "jsstring \<Rightarrow> (jsstring option \<times> jsstring option) option"

text \<open>\<open>a || d\<close> where \<open>d\<close> is a string.\<close>

definition or_default :: "jsstring option \<Rightarrow> jsstring \<Rightarrow> jsstring" where
  "or_default a d = (case a of None \<Rightarrow> d | Some s \<Rightarrow> if s \<noteq> [] then s else d)"

text \<open>The tail of the message that rejects an image: the model name is put before it.\<close>

definition text_only_message :: jsstring where
  "text_only_message = [32, 30446, 21069, 20165, 25903, 25345, 32431, 25991, 26412, 25913,
     20889, 32, 40, 69, 120, 99, 101, 108, 32, 27169, 24335, 41, 12290, 22914, 38656, 22788,
     29702, 22270, 29255, 65292, 35831, 20999, 25442, 22238, 32, 71, 101, 109, 105, 110, 105,
     32, 27169, 22411, 12290]"

text \<open>
  A call returns what the promise settles to, \<open>Inl\<close> the message of the thrown
  \<open>Error\<close>, together with the network requests it made.
\<close>

definition callOpenAICompatibleApi ::
  "network \<Rightarrow> jsstring \<Rightarrow> jsstring \<Rightarrow> rewrite_input \<Rightarrow> jsstring \<Rightarrow>
     (jsstring + RewriteResult) \<times> request list" where
  "callOpenAICompatibleApi net apiKey modelName input systemInstruction =
     (if truthy (input_imageData input) then (Inl (modelName @ text_only_message), [])
      else (case input_text input of
          None \<Rightarrow> (Inl (js ''No text input provided for text-only model.''), [])
        | Some txt \<Rightarrow>
            if txt = [] then (Inl (js ''No text input provided for text-only model.''), [])
            else
              (case (if includes_str modelName (js ''deepseek'')
                       then Some (js ''https://api.deepseek.com/chat/completions'')
                     else if includes_str modelName (js ''moonshot'')
                       then Some (js ''https://api.moonshot.cn/v1/chat/completions'')
                     else None) of
                 None \<Rightarrow> (Inl (js ''Unknown model provider''), [])
               | Some baseUrl \<Rightarrow>
                   (let rq = FetchChat baseUrl apiKey modelName systemInstruction txt
                    in (case fetch net rq of
                          FetchThrows m \<Rightarrow>
                            (Inl (or_default m
                               (js ''Failed to rewrite caption via external provider'')), [rq])
                        | HttpNotOk m st \<Rightarrow>
                            (Inl (or_default (Some (or_default m (js ''API Error: '' @ st)))
                               (js ''Failed to rewrite caption via external provider'')), [rq])
                        | HttpOk content \<Rightarrow>
                            (Inr \<lparr>result_rewritten = or_default content (js ''No response generated''),
                                  extractedOriginal = Some txt\<rparr>, [rq]))))))"

definition rules_heading :: jsstring where
  "rules_heading = [10, 10, 38468, 21152, 35268, 21017, 25991, 20214, 20869, 23481, 58, 10]"

text \<open>\<open>DEFAULT_SYSTEM_PROMPT\<close> is a constant of a file that is not among the sources; it
  is a parameter.\<close>

definition rewriteCaption ::
  "jsstring \<Rightarrow> network \<Rightarrow> jsstring \<Rightarrow> jsstring \<Rightarrow> rewrite_input \<Rightarrow> jsstring \<Rightarrow>
     (jsstring + RewriteResult) \<times> request list" where
  "rewriteCaption DEFAULT_SYSTEM_PROMPT net apiKey modelName input customRules =
     (if apiKey = [] then (Inl (js ''API Key is missing''), [])
      else
        (let systemInstruction =
               (if customRules \<noteq> [] then DEFAULT_SYSTEM_PROMPT @ rules_heading @ customRules
                else DEFAULT_SYSTEM_PROMPT);
             isGoogleModel = includes_str modelName (js ''gemini'')
         in if \<not> isGoogleModel
            then callOpenAICompatibleApi net apiKey modelName input systemInstruction
            else if truthy (input_imageData input) then
              (let rq = GenerateContent modelName systemInstruction (input_imageData input)
                          (if truthy (input_text input) then input_text input else None)
               in (case generateContent net rq of
                     SdkThrows m \<Rightarrow> (Inl (or_default m (js ''Failed to rewrite caption'')), [rq])
                   | SdkText t \<Rightarrow>
                       (let jsonText = or_default t (js ''{}'')
                        in (case reply_json net jsonText of
                              Some (rw, ex) \<Rightarrow>
                                (Inr \<lparr>result_rewritten =
                                        or_default rw (js ''Failed to generate caption''),
                                      extractedOriginal =
                                        Some (or_empty (or_else (or_else ex (input_text input))
                                          (Some [])))\<rparr>, [rq])
                            | None \<Rightarrow>
                                (Inr \<lparr>result_rewritten = jsonText,
                                      extractedOriginal = input_text input\<rparr>, [rq])))))
            else if truthy (input_text input) then
              (let rq = GenerateContent modelName systemInstruction None (input_text input)
               in (case generateContent net rq of
                     SdkThrows m \<Rightarrow> (Inl (or_default m (js ''Failed to rewrite caption'')), [rq])
                   | SdkText t \<Rightarrow>
                       (Inr \<lparr>result_rewritten = or_default t (js ''No response generated''),
                             extractedOriginal = input_text input\<rparr>, [rq])))
            else (Inl (js ''No input provided''), [])))"

section \<open>The batch processor (App.tsx, \<open>startProcessing\<close>)\<close>

text \<open>
  A run is a set of asynchronous workers on a single-threaded event loop: a worker runs
  without interruption up to its next \<open>await\<close>, so the processor is a sequence of
  atomic blocks. The application state holds the React state the workers write
  (\<open>data\<close>, \<open>isProcessing\<close>, \<open>processingStats\<close>), the stop flag
  \<open>stopProcessingRef\<close>, and one closure for every invocation of \<open>startProcessing\<close>,
  oldest first. A closure holds \<open>itemsToProcess\<close>, the cursor \<open>index\<close> its workers
  share, and its workers; the stop flag and the rows are shared by all closures, so the
  workers of an earlier invocation that are still suspended go on when a later
  invocation resets the flag. A worker is either suspended in
  \<open>await rewriteCaption(...)\<close>, holding its \<open>originalIndex\<close> and the value the promise
  will settle to, or has returned. \<open>calls\<close> logs the rows the workers of a closure
  have invoked \<open>rewriteCaption\<close> for, by original index.
\<close>

datatype worker = Waiting nat "jsstring + RewriteResult" | Finished

record closure =
  itemsToProcess :: "(CaptionRow \<times> nat) list"
  index :: nat
  workers :: "worker list"
  calls :: "nat list"

record app_state =
  data :: "CaptionRow list"
  isProcessing :: bool
  processingStats :: ProcessingStats
  stopProcessingRef :: bool
  runs :: "closure list"

text \<open>The application before any run, holding the rows \<open>rows\<close>.\<close>

definition idle :: "CaptionRow list \<Rightarrow> ProcessingStats \<Rightarrow> app_state" where
  "idle rows st =
     \<lparr>data = rows, isProcessing = False, processingStats = st, stopProcessingRef = False,
      runs = []\<rparr>"

definition CONCURRENCY :: nat where
  "CONCURRENCY = 3"

definition eligible :: "CaptionRow \<Rightarrow> bool" where
  "eligible item = (status item = Pending \<or> status item = Error)"

text \<open>\<open>data.map((item, index) => ({ item, index })).filter(...)\<close>.\<close>

definition items_of :: "CaptionRow list \<Rightarrow> (CaptionRow \<times> nat) list" where
  "items_of rows = filter (\<lambda>(item, i). eligible item) (zip rows [0..<length rows])"

text \<open>
  \<open>setData(prev => { const newData = [...prev]; newData[i] = {...newData[i], ...};
  return newData; })\<close>. The index comes from the list the run started with and no
  event of the model changes the length of the list (lemma \<open>length_data_exec\<close>
  below), so the write is always in range.
\<close>

definition update_row :: "nat \<Rightarrow> (CaptionRow \<Rightarrow> CaptionRow) \<Rightarrow> CaptionRow list \<Rightarrow> CaptionRow list" where
  "update_row i f prev = prev[i := f (prev ! i)]"

definition mk_input :: "CaptionRow \<Rightarrow> rewrite_input" where
  "mk_input item =
     \<lparr>input_text = (if original item \<noteq> [] then Some (original item) else None),
      input_imageData = (if truthy (imageData item) then imageData item else None)\<rparr>"

definition mark_processing :: "CaptionRow \<Rightarrow> CaptionRow" where
  "mark_processing r = r\<lparr>status := Processing, error := None\<rparr>"

text \<open>The write after the \<open>await\<close>: the \<open>try\<close> branch on a result, the \<open>catch\<close> branch
  on a thrown error.\<close>

definition write_back :: "jsstring + RewriteResult \<Rightarrow> CaptionRow \<Rightarrow> CaptionRow" where
  "write_back res r =
     (case res of
        Inr result \<Rightarrow>
          r\<lparr>status := Completed, rewritten := Some (result_rewritten result),
            original := or_default (extractedOriginal result) (original r)\<rparr>
      | Inl message \<Rightarrow> r\<lparr>status := Error, error := Some message\<rparr>)"

definition count_result :: "jsstring + RewriteResult \<Rightarrow> ProcessingStats \<Rightarrow> ProcessingStats" where
  "count_result res prev =
     (case res of
        Inr result \<Rightarrow> prev\<lparr>completed := completed prev + 1\<rparr>
      | Inl message \<Rightarrow> prev\<lparr>failed := failed prev + 1\<rparr>)"

text \<open>
  The transform is a parameter: \<open>rw r i input\<close> is what the call of \<open>rewriteCaption\<close>
  made by run \<open>r\<close> for the row at index \<open>i\<close> with \<open>input\<close> settles to. A run
  calls a row at most once, so this covers every behaviour of the network.

  \<open>upd_run r f\<close> changes the closure of run \<open>r\<close>. \<open>worker_loop\<close> is one pass of
  \<open>while (index < itemsToProcess.length)\<close> of a worker of run \<open>r\<close>, from the loop head
  to the next \<open>await\<close> or to the return of the worker.
\<close>

definition upd_run :: "nat \<Rightarrow> (closure \<Rightarrow> closure) \<Rightarrow> app_state \<Rightarrow> app_state" where
  "upd_run r f s = s\<lparr>runs := (runs s)[r := f (runs s ! r)]\<rparr>"

definition worker_loop ::
  "(nat \<Rightarrow> nat \<Rightarrow> rewrite_input \<Rightarrow> jsstring + RewriteResult) \<Rightarrow> nat \<Rightarrow> app_state \<Rightarrow>
     app_state \<times> worker" where
  "worker_loop rw r s =
     (if index (runs s ! r) < length (itemsToProcess (runs s ! r)) then
        if stopProcessingRef s then (s, Finished)
        else
          (let currentIndex = index (runs s ! r);
               s1 = upd_run r (\<lambda>c. c\<lparr>index := index c + 1\<rparr>) s
           in if currentIndex \<ge> length (itemsToProcess (runs s ! r)) then (s1, Finished)
              else
                (let (item, originalIndex) = itemsToProcess (runs s ! r) ! currentIndex;
                     s2 = upd_run r (\<lambda>c. c\<lparr>calls := calls c @ [originalIndex]\<rparr>)
                            (s1\<lparr>data := update_row originalIndex mark_processing (data s1)\<rparr>)
                 in (s2, Waiting originalIndex (rw r originalIndex (mk_input item)))))
      else (s, Finished))"

text \<open>\<open>worker()\<close>: the call runs a new worker of run \<open>r\<close> up to its first \<open>await\<close>.\<close>

definition spawn ::
  "(nat \<Rightarrow> nat \<Rightarrow> rewrite_input \<Rightarrow> jsstring + RewriteResult) \<Rightarrow> nat \<Rightarrow> app_state \<Rightarrow>
     app_state" where
  "spawn rw r s =
     (let (s', w) = (if stopProcessingRef s then (s, Finished) else worker_loop rw r s)
      in upd_run r (\<lambda>c. c\<lparr>workers := workers c @ [w]\<rparr>) s')"

definition run_done :: "closure \<Rightarrow> bool" where
  "run_done c = list_all (\<lambda>w. w = Finished) (workers c)"

text \<open>No call of any run is pending.\<close>

definition quiescent :: "app_state \<Rightarrow> bool" where
  "quiescent s = list_all run_done (runs s)"

text \<open>\<open>await Promise.all(workers); setIsProcessing(false)\<close> of run \<open>r\<close>.\<close>

definition after_all :: "nat \<Rightarrow> app_state \<Rightarrow> app_state" where
  "after_all r s = (if run_done (runs s ! r) then s\<lparr>isProcessing := False\<rparr> else s)"

definition startProcessing ::
  "jsstring \<Rightarrow> (nat \<Rightarrow> nat \<Rightarrow> rewrite_input \<Rightarrow> jsstring + RewriteResult) \<Rightarrow> app_state \<Rightarrow>
     app_state" where
  "startProcessing apiKey rw s =
     (if apiKey = [] then s
      else if data s = [] then s
      else
        (let r = length (runs s);
             s0 = s\<lparr>isProcessing := True, stopProcessingRef := False,
                    runs := runs s @
                      [\<lparr>itemsToProcess = items_of (data s), index = 0, workers = [],
                        calls = []\<rparr>]\<rparr>
         in after_all r ((spawn rw r ^^ CONCURRENCY) s0)))"

text \<open>The promise of worker \<open>w\<close> of run \<open>r\<close> settles: the worker writes the outcome
  back and goes round the loop.\<close>

definition resume ::
  "(nat \<Rightarrow> nat \<Rightarrow> rewrite_input \<Rightarrow> jsstring + RewriteResult) \<Rightarrow> nat \<Rightarrow> nat \<Rightarrow> app_state \<Rightarrow>
     app_state option" where
  "resume rw r w s =
     (if r < length (runs s) \<and> w < length (workers (runs s ! r)) then
        (case workers (runs s ! r) ! w of
           Finished \<Rightarrow> None
         | Waiting originalIndex res \<Rightarrow>
             (let s1 = s\<lparr>data := update_row originalIndex (write_back res) (data s),
                         processingStats := count_result res (processingStats s)\<rparr>;
                  (s2, w') = worker_loop rw r s1
              in Some (after_all r (upd_run r (\<lambda>c. c\<lparr>workers := (workers c)[w := w']\<rparr>) s2))))
      else None)"

definition stopProcessing :: "app_state \<Rightarrow> app_state" where
  "stopProcessing s = s\<lparr>stopProcessingRef := True, isProcessing := False\<rparr>"

text \<open>
  The events: a pending call settles, the user stops the processing, the user starts it
  (the interface offers the start button whenever \<open>isProcessing\<close> is false, also right
  after a stop while calls are still pending). An event that is not enabled is \<open>None\<close>.
  The handlers that replace the list (loading a session, clearing, uploading) are not
  events of this model.
\<close>

datatype event = Resolve nat nat | Stop | Start

definition step ::
  "jsstring \<Rightarrow> (nat \<Rightarrow> nat \<Rightarrow> rewrite_input \<Rightarrow> jsstring + RewriteResult) \<Rightarrow> event \<Rightarrow>
     app_state \<Rightarrow> app_state option" where
  "step apiKey rw ev s =
     (case ev of
        Resolve r w \<Rightarrow> resume rw r w s
      | Stop \<Rightarrow> Some (stopProcessing s)
      | Start \<Rightarrow> Some (startProcessing apiKey rw s))"

fun exec ::
  "jsstring \<Rightarrow> (nat \<Rightarrow> nat \<Rightarrow> rewrite_input \<Rightarrow> jsstring + RewriteResult) \<Rightarrow> event list \<Rightarrow>
     app_state \<Rightarrow> app_state option" where
  "exec apiKey rw [] s = Some s"
| "exec apiKey rw (ev # evs) s =
     (case step apiKey rw ev s of None \<Rightarrow> None | Some s' \<Rightarrow> exec apiKey rw evs s')"

text \<open>What run \<open>r\<close> makes of a row it has claimed and settled.\<close>

definition settle ::
  "(nat \<Rightarrow> nat \<Rightarrow> rewrite_input \<Rightarrow> jsstring + RewriteResult) \<Rightarrow> nat \<Rightarrow> nat \<Rightarrow> CaptionRow \<Rightarrow>
     CaptionRow" where
  "settle rw r i row = write_back (rw r i (mk_input row)) (mark_processing row)"

text \<open>The original indices of the rows a run is to process, in their order.\<close>

definition eligible_indices :: "CaptionRow list \<Rightarrow> nat list" where
  "eligible_indices rows = filter (\<lambda>i. eligible (rows ! i)) [0..<length rows]"

text \<open>The rows \<open>rewriteCaption\<close> has been invoked for by the runs started at position
  \<open>r\<close> or later, and the number of pending calls of a closure.\<close>

definition calls_from :: "nat \<Rightarrow> app_state \<Rightarrow> nat list" where
  "calls_from r s = concat (map calls (drop r (runs s)))"

definition waiting_count :: "closure \<Rightarrow> nat" where
  "waiting_count c = length (filter (\<lambda>w. w \<noteq> Finished) (workers c))"

definition pending_calls :: "app_state \<Rightarrow> nat" where
  "pending_calls s = sum_list (map waiting_count (runs s))"

text \<open>
  The invariant of a run \<open>r\<close> started on \<open>rows\<close>, for the workers \<open>ws\<close>, the rows
  \<open>dat\<close> and the closure \<open>c\<close>: the cursor has claimed a prefix of the eligible rows,
  every suspended worker awaits a claimed row of its own, and a row is untouched before
  it is claimed, marked while its call is pending, and settled afterwards.
\<close>

definition waits :: "worker list \<Rightarrow> nat \<Rightarrow> nat \<Rightarrow> bool" where
  "waits ws w j = (w < length ws \<and> (\<exists>res. ws ! w = Waiting j res))"

definition awaited :: "worker list \<Rightarrow> nat \<Rightarrow> bool" where
  "awaited ws j = (\<exists>w. waits ws w j)"

definition inv ::
  "(nat \<Rightarrow> nat \<Rightarrow> rewrite_input \<Rightarrow> jsstring + RewriteResult) \<Rightarrow> nat \<Rightarrow> CaptionRow list \<Rightarrow>
     worker list \<Rightarrow> CaptionRow list \<Rightarrow> closure \<Rightarrow> bool" where
  "inv rw r rows ws dat c =
     (itemsToProcess c = items_of rows \<and>
      index c \<le> length (items_of rows) \<and>
      calls c = take (index c) (eligible_indices rows) \<and>
      length dat = length rows \<and>
      (\<forall>w j res. w < length ws \<and> ws ! w = Waiting j res \<longrightarrow>
         j \<in> set (calls c) \<and> res = rw r j (mk_input (rows ! j))) \<and>
      (\<forall>w w' j. waits ws w j \<and> waits ws w' j \<longrightarrow> w = w') \<and>
      (\<forall>j < length rows.
         dat ! j =
           (if j \<in> set (calls c)
            then (if awaited ws j then mark_processing (rows ! j) else settle rw r j (rows ! j))
            else rows ! j)))"

text \<open>
  Run \<open>r\<close> is the only one with calls pending: it is the last one started, on the rows
  \<open>rows\<close>, and all earlier runs have returned.
\<close>

definition sole_run ::
  "(nat \<Rightarrow> nat \<Rightarrow> rewrite_input \<Rightarrow> jsstring + RewriteResult) \<Rightarrow> nat \<Rightarrow> CaptionRow list \<Rightarrow>
     app_state \<Rightarrow> bool" where
  "sole_run rw r rows s =
     (length (runs s) = Suc r \<and> list_all run_done (take r (runs s)) \<and>
      inv rw r rows (workers (runs s ! r)) (data s) (runs s ! r))"

text \<open>What is left of a run: the rows still to claim unless the processing is stopped,
  and the pending calls.\<close>

definition remaining :: "bool \<Rightarrow> closure \<Rightarrow> nat" where
  "remaining stopped c =
     (if stopped then 0 else length (itemsToProcess c) - index c) + waiting_count c"

definition resolves :: "event list \<Rightarrow> nat" where
  "resolves evs = length (filter (\<lambda>ev. ev \<noteq> Stop \<and> ev \<noteq> Start) evs)"

text \<open>A worker returns only when the processing is stopped or the cursor has reached the
  end.\<close>

definition no_early_finish :: "bool \<Rightarrow> closure \<Rightarrow> bool" where
  "no_early_finish stopped c =
     ((\<exists>w < length (workers c). workers c ! w = Finished) \<longrightarrow>
        stopped \<or> length (itemsToProcess c) \<le> index c)"


text \<open>Example rows and an example transform (the call for row 2 fails) for concrete
  runs.\<close>

definition example_row :: "status \<Rightarrow> CaptionRow" where
  "example_row st =
     \<lparr>row_id = [], original = js ''a'', rewritten = None, status = st, imagePath = None,
      imageData = None, error = None\<rparr>"

definition example_rw :: "nat \<Rightarrow> nat \<Rightarrow> rewrite_input \<Rightarrow> jsstring + RewriteResult" where
  "example_rw r i inp =
     (if i = 2 then Inl (js ''boom'')
      else Inr \<lparr>result_rewritten = js ''b'', extractedOriginal = None\<rparr>)"

section \<open>Spreadsheet import (App.tsx, \<open>handleExcelUpload\<close>)\<close>

text \<open>
  \<open>parseExcel\<close> hands over what the spreadsheet library's \<open>sheet_to_json\<close> returns:
  one object per data row, keyed by the header cells. An object is modelled as the list
  of its keys, in the order of \<open>Object.keys\<close>, with their values; the library leaves out
  the key of an empty cell. A cell value is a string, a number or a boolean; of the
  numbers only the integers are represented, and \<open>String_of\<close> writes them in
  decimal digits, as \<open>String\<close> does for the integers below \<open>10^21\<close>.
\<close>

datatype js_cell = CStr jsstring | CNum int | CBool bool

type_synonym json_row = "(jsstring \<times> js_cell) list"

definition cell_truthy :: "js_cell \<Rightarrow> bool" where
  "cell_truthy v = (case v of CStr s \<Rightarrow> s \<noteq> [] | CNum n \<Rightarrow> n \<noteq> 0 | CBool b \<Rightarrow> b)"

function digits :: "nat \<Rightarrow> jsstring" where
  "digits n = (if n < 10 then [48 + n] else digits (n div 10) @ [48 + n mod 10])"
  by pat_completeness auto
termination
  by (relation "measure (\<lambda>n. n)") auto

text \<open>\<open>String(v)\<close>.\<close>

definition String_of :: "js_cell \<Rightarrow> jsstring" where
  "String_of v =
     (case v of
        CStr s \<Rightarrow> s
      | CNum n \<Rightarrow> (if n < 0 then 45 # digits (nat (- n)) else digits (nat n))
      | CBool b \<Rightarrow> (if b then js ''true'' else js ''false''))"

text \<open>
  \<open>toLowerCase\<close> on the ASCII letters. The full Unicode mapping differs from it only on
  code units beyond ASCII, and no such difference can make one of the keywords below
  appear, so the \<open>includes\<close> tests are the same.
\<close>

definition toLowerCase :: "jsstring \<Rightarrow> jsstring" where
  "toLowerCase s = map (\<lambda>c. if 65 \<le> c \<and> c \<le> 90 then c + 32 else c) s"

definition is_caption_key :: "jsstring \<Rightarrow> bool" where
  "is_caption_key k =
     (includes_str (toLowerCase k) (js ''caption'') \<or>
      includes_str (toLowerCase k) (js ''desc'') \<or>
      includes_str (toLowerCase k) [25551, 36848])"

definition is_image_key :: "jsstring \<Rightarrow> bool" where
  "is_image_key k =
     (includes_str (toLowerCase k) (js ''path'') \<or>
      includes_str (toLowerCase k) (js ''image'') \<or>
      includes_str (toLowerCase k) (js ''img'') \<or>
      includes_str (toLowerCase k) [22270, 29255])"

text \<open>\<open>Object.keys(row).find(...) || Object.keys(row)[0]\<close>.\<close>

definition captionKey :: "json_row \<Rightarrow> jsstring option" where
  "captionKey row =
     (case find is_caption_key (map fst row) of
        Some k \<Rightarrow> Some k
      | None \<Rightarrow> (case map fst row of [] \<Rightarrow> None | k # ks \<Rightarrow> Some k))"

text \<open>\<open>String(row[captionKey] || '')\<close>.\<close>

definition caption_text :: "json_row \<Rightarrow> jsstring" where
  "caption_text row =
     (case captionKey row of
        None \<Rightarrow> []
      | Some k \<Rightarrow>
          (case map_of row k of
             None \<Rightarrow> []
           | Some v \<Rightarrow> if cell_truthy v then String_of v else []))"

text \<open>\<open>imageKey ? String(row[imageKey]) : undefined\<close>.\<close>

definition image_path :: "json_row \<Rightarrow> jsstring option" where
  "image_path row =
     (case find is_image_key (map fst row) of
        None \<Rightarrow> None
      | Some k \<Rightarrow>
          if k = [] then None
          else (case map_of row k of None \<Rightarrow> Some (js ''undefined'') | Some v \<Rightarrow> Some (String_of v)))"

text \<open>White space as \<open>String.prototype.trim\<close> and the regular expression class
  \<open>\s\<close> have it.\<close>

definition is_space :: "nat \<Rightarrow> bool" where
  "is_space c =
     ((9 \<le> c \<and> c \<le> 13) \<or> c = 32 \<or> c = 160 \<or> c = 5760 \<or>
      (8192 \<le> c \<and> c \<le> 8202) \<or> c = 8232 \<or> c = 8233 \<or> c = 8239 \<or>
      c = 8287 \<or> c = 12288 \<or> c = 65279)"

definition trim :: "jsstring \<Rightarrow> jsstring" where
  "trim s = rev (dropWhile is_space (rev (dropWhile is_space s)))"

definition import_row :: "jsstring \<Rightarrow> json_row \<Rightarrow> CaptionRow" where
  "import_row uid row =
     \<lparr>row_id = uid, original = caption_text row, rewritten = None, status = Pending,
      imagePath = image_path row, imageData = None, error = None\<rparr>"

text \<open>The \<open>i\<close>-th call of \<open>uuidv4()\<close> returns \<open>uuidv4 i\<close>.\<close>

definition processedData :: "(nat \<Rightarrow> jsstring) \<Rightarrow> json_row list \<Rightarrow> CaptionRow list" where
  "processedData uuidv4 jsonData =
     filter (\<lambda>item. original item \<noteq> [] \<and> trim (original item) \<noteq> [])
       (map (\<lambda>(i, row). import_row (uuidv4 i) row) (enumerate 0 jsonData))"

text \<open>The handler: no file, a file the library cannot parse (an alert), or the parsed
  rows, which replace the list.\<close>

datatype upload = NoFile | ParseFails | Parsed "json_row list"

definition handleExcelUpload :: "(nat \<Rightarrow> jsstring) \<Rightarrow> upload \<Rightarrow> app_state \<Rightarrow> app_state" where
  "handleExcelUpload uuidv4 up s =
     (case up of
        NoFile \<Rightarrow> s
      | ParseFails \<Rightarrow> s
      | Parsed jsonData \<Rightarrow>
          s\<lparr>data := processedData uuidv4 jsonData,
            processingStats :=
              \<lparr>total = length (processedData uuidv4 jsonData), completed = 0, failed = 0\<rparr>\<rparr>)"

section \<open>Diff display and export (components/DataPreview.tsx, services/fileParser.ts)\<close>

text \<open>
  \<open>extractRewrittenText\<close> matches
  \<open>/(?:M1|Rewritten Caption|M3|Final Caption)\s*[:C]\s*([\s\S]+)$/i\<close>, where \<open>M1\<close> and \<open>M3\<close>
  are the two CJK markers and \<open>C\<close> the full-width colon, and returns the trimmed
  group. With the flag \<open>i\<close> an ASCII letter of the pattern matches both of its cases and
  nothing else. The match is the leftmost one. After a marker the first \<open>\s*\<close> has to
  take all the white space, since a colon must follow; the second takes all the white
  space too unless nothing would be left for the group, in which case it gives back the
  last character.
\<close>

definition upper_ascii :: "nat \<Rightarrow> nat" where
  "upper_ascii c = (if 97 \<le> c \<and> c \<le> 122 then c - 32 else c)"

fun starts_with_ci :: "jsstring \<Rightarrow> jsstring \<Rightarrow> bool" where
  "starts_with_ci s [] = True"
| "starts_with_ci [] (p # ps) = False"
| "starts_with_ci (c # cs) (p # ps) = (upper_ascii c = upper_ascii p \<and> starts_with_ci cs ps)"

definition markers :: "jsstring list" where
  "markers =
     [[25913, 20889] @ js ''caption'', js ''Rewritten Caption'', [25913, 20889, 21518],
      js ''Final Caption'']"

definition after_marker :: "jsstring \<Rightarrow> jsstring option" where
  "after_marker r =
     (case dropWhile is_space r of
        [] \<Rightarrow> None
      | c # r2 \<Rightarrow>
          if (c = 58 \<or> c = 65306) \<and> r2 \<noteq> []
          then Some (if dropWhile is_space r2 \<noteq> [] then dropWhile is_space r2 else [last r2])
          else None)"

fun match_at :: "jsstring list \<Rightarrow> jsstring \<Rightarrow> jsstring option" where
  "match_at [] s = None"
| "match_at (m # ms) s =
     (if starts_with_ci s m
      then (case after_marker (drop (length m) s) of
              Some g \<Rightarrow> Some g
            | None \<Rightarrow> match_at ms s)
      else match_at ms s)"

fun regex_match :: "jsstring \<Rightarrow> jsstring option" where
  "regex_match [] = None"
| "regex_match (c # cs) =
     (case match_at markers (c # cs) of Some g \<Rightarrow> Some g | None \<Rightarrow> regex_match cs)"

definition extractRewrittenText :: "jsstring option \<Rightarrow> jsstring" where
  "extractRewrittenText fullText =
     (case fullText of
        None \<Rightarrow> []
      | Some t \<Rightarrow>
          if t = [] then []
          else (case regex_match t of
                  Some g \<Rightarrow> if g \<noteq> [] then trim g else t
                | None \<Rightarrow> t))"

text \<open>
  \<open>Diff.diffChars\<close> belongs to the diff library, not to the repository, and is a
  parameter of the functions that call it. A change object holds its text and the two
  flags. \<open>diff_contract\<close> is what the callers rely on: the parts that are not additions
  spell the old string, the parts that are not removals spell the new one, no part is
  empty or both added and removed, and neighbours differ in kind.
\<close>

record change =
  part_value :: jsstring
  added :: bool
  removed :: bool

fun alternating :: "change list \<Rightarrow> bool" where
  "alternating [] = True"
| "alternating [p] = True"
| "alternating (p # q # ps) =
     ((added p \<noteq> added q \<or> removed p \<noteq> removed q) \<and> alternating (q # ps))"

definition diff_contract :: "jsstring \<Rightarrow> jsstring \<Rightarrow> change list \<Rightarrow> bool" where
  "diff_contract old new parts =
     (concat (map part_value (filter (\<lambda>p. \<not> added p) parts)) = old \<and>
      concat (map part_value (filter (\<lambda>p. \<not> removed p) parts)) = new \<and>
      list_all (\<lambda>p. part_value p \<noteq> [] \<and> \<not> (added p \<and> removed p)) parts \<and>
      alternating parts)"

text \<open>
  A model of the library for concrete examples: a shortest edit script that prefers a
  removal to an insertion, with neighbouring characters of one kind joined.
\<close>

datatype kind = Same | Added | Removed

fun edit_script :: "jsstring \<Rightarrow> jsstring \<Rightarrow> (kind \<times> nat) list" where
  "edit_script [] ys = map (Pair Added) ys"
| "edit_script (x # xs) [] = map (Pair Removed) (x # xs)"
| "edit_script (x # xs) (y # ys) =
     (if x = y then (Same, x) # edit_script xs ys
      else if length (edit_script xs (y # ys)) \<le> length (edit_script (x # xs) ys)
        then (Removed, x) # edit_script xs (y # ys)
        else (Added, y) # edit_script (x # xs) ys)"

definition kind_of :: "change \<Rightarrow> kind" where
  "kind_of p = (if added p then Added else if removed p then Removed else Same)"

definition mk_change :: "kind \<Rightarrow> jsstring \<Rightarrow> change" where
  "mk_change k v = \<lparr>part_value = v, added = (k = Added), removed = (k = Removed)\<rparr>"

fun join_unit :: "kind \<times> nat \<Rightarrow> change list \<Rightarrow> change list" where
  "join_unit (k, c) [] = [mk_change k [c]]"
| "join_unit (k, c) (p # ps) =
     (if kind_of p = k then mk_change k (c # part_value p) # ps
      else mk_change k [c] # p # ps)"

definition diffChars_model :: "jsstring \<Rightarrow> jsstring \<Rightarrow> change list" where
  "diffChars_model old new = foldr join_unit (edit_script old new) []"

text \<open>\<open>DiffView\<close>: the spans it renders, highlighted or plain.\<close>

datatype view = OriginalView | RewrittenView

datatype span = Highlight jsstring | Plain jsstring

definition DiffView ::
  "(jsstring \<Rightarrow> jsstring \<Rightarrow> change list) \<Rightarrow> jsstring \<Rightarrow> jsstring \<Rightarrow> view \<Rightarrow> span list" where
  "DiffView diffChars orig rewr typ =
     (let cleanRewritten = extractRewrittenText (Some rewr);
          diff = diffChars orig cleanRewritten
      in List.map_filter
           (\<lambda>part.
              if typ = OriginalView then
                (if added part then None
                 else if removed part then Some (Highlight (part_value part))
                 else Some (Plain (part_value part)))
              else
                (if removed part then None
                 else if added part then Some (Highlight (part_value part))
                 else Some (Plain (part_value part))))
           diff)"

text \<open>\<open>handleDownload\<close> and \<open>exportToCSV\<close>. A text run carries its style, if any.\<close>

record export_item =
  item_ID :: jsstring
  item_Original :: jsstring
  item_Rewritten :: jsstring
  item_ImagePath :: jsstring
  item_Status :: jsstring
  item_Error :: jsstring

definition status_text :: "status \<Rightarrow> jsstring" where
  "status_text st =
     (case st of
        Pending \<Rightarrow> js ''pending''
      | Processing \<Rightarrow> js ''processing''
      | Completed \<Rightarrow> js ''completed''
      | Error \<Rightarrow> js ''error'')"

definition handleDownload :: "CaptionRow list \<Rightarrow> export_item list" where
  "handleDownload rows =
     map (\<lambda>item.
            \<lparr>item_ID = row_id item, item_Original = original item,
             item_Rewritten = or_empty (rewritten item),
             item_ImagePath = or_empty (imagePath item),
             item_Status = status_text (status item),
             item_Error = or_empty (error item)\<rparr>) rows"

datatype style = GreenBoldUnderline | GreenBold

type_synonym run = "jsstring \<times> style option"

definition originalRuns :: "change list \<Rightarrow> run list" where
  "originalRuns diff =
     List.map_filter
       (\<lambda>part.
          if added part then None
          else if removed part then Some (part_value part, Some GreenBoldUnderline)
          else Some (part_value part, None)) diff"

definition rewrittenRuns :: "change list \<Rightarrow> run list" where
  "rewrittenRuns diff =
     List.map_filter
       (\<lambda>part.
          if removed part then None
          else if added part then Some (part_value part, Some GreenBold)
          else Some (part_value part, None)) diff"

text \<open>
  A worksheet cell: a string cell, a rich-text cell made of runs, or a cell object with
  no value. \<open>{ t: 's', ...x }\<close> is a rich-text cell when \<open>x\<close> is \<open>{ r: runs }\<close>; when
  \<open>x\<close> is the plain string (only when there are no runs) the cell has neither runs nor a
  value.
\<close>

datatype cell = NoValue | Text jsstring | RichText "run list"

definition rich_cell :: "run list \<Rightarrow> cell" where
  "rich_cell rs = (if rs \<noteq> [] then RichText rs else NoValue)"

definition header_row :: "jsstring list" where
  "header_row =
     [js ''ID'', js ''Original Caption (Diff)'', js ''Rewritten Caption (Diff)'',
      js ''Image Path'', js ''Status'', js ''Error'']"

definition export_row :: "(jsstring \<Rightarrow> jsstring \<Rightarrow> change list) \<Rightarrow> export_item \<Rightarrow> cell list" where
  "export_row diffChars item =
     (let originalText = item_Original item;
          cleanRewritten = extractRewrittenText (Some (item_Rewritten item));
          diff = diffChars originalText cleanRewritten
      in [Text (item_ID item), rich_cell (originalRuns diff), rich_cell (rewrittenRuns diff),
          Text (item_ImagePath item), Text (item_Status item), Text (item_Error item)])"

definition exportToCSV ::
  "(jsstring \<Rightarrow> jsstring \<Rightarrow> change list) \<Rightarrow> export_item list \<Rightarrow> cell list list" where
  "exportToCSV diffChars exportData =
     map Text header_row # map (export_row diffChars) exportData"

text \<open>
  Modelled from the spec: writing the workbook and reading it back belong to the
  spreadsheet library. A rich-text cell is read back as the text of its runs, a cell
  with no value is not read back, and whether an empty string cell is read back is left
  open (\<open>keep_empty\<close>). \<open>sheet_to_json\<close> keys every data row by the header cells, in
  column order, leaves out the cells that are not there and skips a row with no cell.
\<close>

definition cell_text :: "bool \<Rightarrow> cell \<Rightarrow> jsstring option" where
  "cell_text keep_empty c =
     (case c of
        NoValue \<Rightarrow> None
      | Text s \<Rightarrow> if s = [] \<and> \<not> keep_empty then None else Some s
      | RichText rs \<Rightarrow> Some (concat (map fst rs)))"

definition sheet_row :: "bool \<Rightarrow> jsstring list \<Rightarrow> cell list \<Rightarrow> json_row" where
  "sheet_row keep_empty hdr cells =
     List.map_filter
       (\<lambda>(h, c). map_option (\<lambda>t. (h, CStr t)) (cell_text keep_empty c)) (zip hdr cells)"

definition parseExcel :: "bool \<Rightarrow> cell list list \<Rightarrow> json_row list" where
  "parseExcel keep_empty sheet =
     (case sheet of
        [] \<Rightarrow> []
      | hdr # rows \<Rightarrow>
          filter (\<lambda>r. r \<noteq> [])
            (map (sheet_row keep_empty (map (\<lambda>c. or_empty (cell_text True c)) hdr)) rows))"

text \<open>Export, then import of the exported file.\<close>

definition round_trip ::
  "(jsstring \<Rightarrow> jsstring \<Rightarrow> change list) \<Rightarrow> bool \<Rightarrow> (nat \<Rightarrow> jsstring) \<Rightarrow> CaptionRow list \<Rightarrow>
     CaptionRow list" where
  "round_trip diffChars keep_empty uuidv4 rows =
     processedData uuidv4 (parseExcel keep_empty (exportToCSV diffChars (handleDownload rows)))"

section \<open>Properties of the local history\<close>

lemma getSessions_total: "\<exists>v. getSessions ls = Inr v"
  by (simp add: getSessions_def try_catch_def JSON_parse_def
      split: option.splits sum.splits raw_text.splits)

lemma getSessions_absent: "items ls STORAGE_KEY = None \<Longrightarrow> getSessions ls = Inr (JArray [])"
  by (simp add: getSessions_def try_catch_def getItem_def)

lemma getSessions_unparseable:
  "items ls STORAGE_KEY = Some raw \<Longrightarrow> JSON_parse raw = Inl e \<Longrightarrow> getSessions ls = Inr (JArray [])"
  by (simp add: getSessions_def try_catch_def getItem_def)

lemma getSessions_stored:
  "items ls STORAGE_KEY = Some (Json v) \<Longrightarrow> getSessions ls = Inr v"
  by (simp add: getSessions_def try_catch_def getItem_def raw_truthy_def JSON_parse_def)

lemma saveSession_ok:
  assumes "getSessions ls = Inr (JArray ss)"
    and "accepts ls (Json (JArray (take 20 (new_session env rows st # ss))))"
  shows "saveSession ls env rows st =
     Inr (new_session env rows st,
          ls\<lparr>items := (items ls)(STORAGE_KEY \<mapsto> Json (JArray (take 20 (new_session env rows st # ss))))\<rparr>)"
  using assms
  by (simp add: saveSession_def try_catch_def bind_js_def spread_onto_def setItem_def
      JSON_stringify_def Let_def)

lemma saveSession_Inr:
  assumes "saveSession ls env rows st = Inr (s, ls')"
  shows "\<exists>ss. getSessions ls = Inr (JArray ss) \<and>
     s = new_session env rows st \<and>
     accepts ls (Json (JArray (take 20 (s # ss)))) \<and>
     ls' = ls\<lparr>items := (items ls)(STORAGE_KEY \<mapsto> Json (JArray (take 20 (s # ss))))\<rparr>"
  using assms
  by (auto simp add: saveSession_def try_catch_def bind_js_def spread_onto_def setItem_def
      JSON_stringify_def Let_def split: sum.splits js_value.splits if_splits)

lemma saveSession_stored:
  assumes "saveSession ls env rows st = Inr (s, ls')" and "getSessions ls = Inr (JArray ss)"
  shows "s = new_session env rows st \<and> getSessions ls' = Inr (JArray (take 20 (s # ss)))"
proof -
  from saveSession_Inr [OF assms(1)] assms(2)
  have s: "s = new_session env rows st"
    and ls': "ls' = ls\<lparr>items := (items ls)(STORAGE_KEY \<mapsto> Json (JArray (take 20 (s # ss))))\<rparr>"
    by auto
  from ls' have "items ls' STORAGE_KEY = Some (Json (JArray (take 20 (s # ss))))" by simp
  then show ?thesis using s by (simp add: getSessions_stored)
qed




lemma read_row_append: "read_row h a = Some r \<Longrightarrow> read_row (h @ h1) a = Some r"
  by (auto simp: read_row_def nth_append split: if_splits)

lemma read_all_append: "read_all h as = Some rs \<Longrightarrow> read_all (h @ h1) as = Some rs"
  by (induction as arbitrary: rs) (auto split: option.splits simp: read_row_append)

lemma read_rows_append: "read_rows h a = Some rs \<Longrightarrow> read_rows (h @ h1) a = Some rs"
  by (auto simp: read_rows_def nth_append read_all_append split: if_splits obj.splits)

lemma read_row_new: "read_row (h @ RowObj r # h1) (length h) = Some r"
  by (simp add: read_row_def)

lemma strip_each_spec:
  assumes "read_all h as = Some rows"
  shows "\<exists>as'. strip_each h as = Some (as', h @ map RowObj (stripImageData rows)) \<and>
           read_all (h @ map RowObj (stripImageData rows)) as' = Some (stripImageData rows)"
  using assms
proof (induction as arbitrary: h rows)
  case Nil
  then show ?case by (simp add: stripImageData_def)
next
  case (Cons a as)
  from Cons.prems obtain r rs where
    r: "read_row h a = Some r" and rs: "read_all h as = Some rs" and rows: "rows = r # rs"
    by (auto split: option.splits)
  let ?o = "RowObj (r\<lparr>imageData := None\<rparr>)"
  have "read_all (h @ [?o]) as = Some rs" using rs by (rule read_all_append)
  from Cons.IH [OF this] obtain as' where
    s: "strip_each (h @ [?o]) as = Some (as', (h @ [?o]) @ map RowObj (stripImageData rs))" and
    ra: "read_all ((h @ [?o]) @ map RowObj (stripImageData rs)) as' = Some (stripImageData rs)"
    by blast
  have h2: "(h @ [?o]) @ map RowObj (stripImageData rs) = h @ map RowObj (stripImageData rows)"
    using rows by (simp add: stripImageData_def)
  have "strip_each h (a # as) = Some (length h # as', h @ map RowObj (stripImageData rows))"
    using r s h2 by (simp add: alloc_def)
  moreover have "read_all (h @ map RowObj (stripImageData rows)) (length h # as') =
      Some (stripImageData rows)"
  proof -
    have "read_row (h @ map RowObj (stripImageData rows)) (length h) = Some (r\<lparr>imageData := None\<rparr>)"
      using rows by (simp add: stripImageData_def read_row_new)
    moreover have "read_all (h @ map RowObj (stripImageData rows)) as' = Some (stripImageData rs)"
      using ra h2 by simp
    ultimately show ?thesis using rows by (simp add: stripImageData_def)
  qed
  ultimately show ?case by blast
qed

lemma stripImageData_heap_spec:
  assumes "read_rows h a = Some rows"
  shows "\<exists>a' h'. stripImageData_heap h a = Some (a', h') \<and> take (length h) h' = h \<and>
           read_rows h' a = Some rows \<and> read_rows h' a' = Some (stripImageData rows)"
proof -
  from assms obtain as where a: "a < length h" "h ! a = ArrObj as" and ra: "read_all h as = Some rows"
    by (auto simp: read_rows_def split: if_splits obj.splits)
  from strip_each_spec [OF ra] obtain as' where
    s: "strip_each h as = Some (as', h @ map RowObj (stripImageData rows))" and
    r': "read_all (h @ map RowObj (stripImageData rows)) as' = Some (stripImageData rows)"
    by blast
  let ?h1 = "h @ map RowObj (stripImageData rows)"
  let ?h' = "?h1 @ [ArrObj as']"
  have 1: "stripImageData_heap h a = Some (length ?h1, ?h')"
    using a s by (simp add: stripImageData_heap_def alloc_def)
  have 2: "take (length h) ?h' = h" by simp
  have 3: "read_rows ?h' a = Some rows"
    using read_rows_append [OF assms, of "map RowObj (stripImageData rows) @ [ArrObj as']"] by simp
  have 4: "read_rows ?h' (length ?h1) = Some (stripImageData rows)"
    using read_all_append [OF r', of "[ArrObj as']"] by (simp add: read_rows_def nth_append)
  from 1 2 3 4 show ?thesis by blast
qed

text \<open>
  Claim C10. \<open>getSessions\<close> never throws: for every state of the store it returns a value.
  When the history key is absent it returns the empty list, and when the stored text is
  present but \<open>JSON.parse\<close> rejects it, the parse error is caught and the empty list is
  returned.
\<close>

theorem getSessions_never_throws:
  "(\<exists>v. getSessions ls = Inr v) \<and>
   (getItem ls STORAGE_KEY = None \<longrightarrow> getSessions ls = Inr (JArray [])) \<and>
   (\<forall>raw e. getItem ls STORAGE_KEY = Some raw \<and> JSON_parse raw = Inl e \<longrightarrow>
      getSessions ls = Inr (JArray []))"
  using getSessions_total [of ls] getSessions_absent [of ls] getSessions_unparseable [of ls]
  by (auto simp: getItem_def)

text \<open>An empty store, and a store whose history item is not JSON.\<close>

theorem getSessions_never_throws_witness:
  "getSessions \<lparr>items = Map.empty, accepts = (\<lambda>t. True)\<rparr> = Inr (JArray []) \<and>
   getSessions \<lparr>items = [STORAGE_KEY \<mapsto> Garbage (js ''{oops'')], accepts = (\<lambda>t. True)\<rparr>
     = Inr (JArray [])"
  using getSessions_never_throws [of "\<lparr>items = Map.empty, accepts = (\<lambda>t. True)\<rparr>"]
    getSessions_never_throws
      [of "\<lparr>items = [STORAGE_KEY \<mapsto> Garbage (js ''{oops'')], accepts = (\<lambda>t. True)\<rparr>"]
  by (simp add: getItem_def JSON_parse_def)



text \<open>
  Claim C6. When \<open>saveSession\<close> succeeds, the session it persisted (the head of the stored
  list) holds one row per input row, each equal to the input row except that
  \<open>imageData\<close> is removed: \<open>row_id\<close>, \<open>original\<close>, \<open>rewritten\<close>,
  \<open>status\<close>, \<open>imagePath\<close> and \<open>error\<close> are unchanged. On the heap,
  \<open>stripImageData\<close> only allocates: every object that existed before, the caller's array and
  its rows included, is unchanged afterwards, and the new array holds the stripped rows.
\<close>

theorem saveSession_strips_imageData:
  "(saveSession ls env rows st = Inr (s, ls') \<longrightarrow>
      (\<exists>rest. getSessions ls' = Inr (JArray (s # rest))) \<and>
      length (session_data s) = length rows \<and>
      (\<forall>i < length rows.
         imageData (session_data s ! i) = None \<and>
         session_data s ! i = (rows ! i)\<lparr>imageData := None\<rparr>)) \<and>
   (read_rows h a = Some rows \<longrightarrow>
      (\<exists>a' h'. stripImageData_heap h a = Some (a', h') \<and> take (length h) h' = h \<and>
         read_rows h' a = Some rows \<and> read_rows h' a' = Some (stripImageData rows)))"
proof (intro conjI impI)
  assume a: "saveSession ls env rows st = Inr (s, ls')"
  from saveSession_Inr [OF a] obtain ss where
    g: "getSessions ls = Inr (JArray ss)" and s: "s = new_session env rows st"
    by blast
  from saveSession_stored [OF a g] show "\<exists>rest. getSessions ls' = Inr (JArray (s # rest))"
    by simp
  show "length (session_data s) = length rows"
    using s by (simp add: new_session_def stripImageData_def)
  show "\<forall>i < length rows.
         imageData (session_data s ! i) = None \<and>
         session_data s ! i = (rows ! i)\<lparr>imageData := None\<rparr>"
    using s by (simp add: new_session_def stripImageData_def)
next
  assume "read_rows h a = Some rows"
  then show "\<exists>a' h'. stripImageData_heap h a = Some (a', h') \<and> take (length h) h' = h \<and>
         read_rows h' a = Some rows \<and> read_rows h' a' = Some (stripImageData rows)"
    by (rule stripImageData_heap_spec)
qed

text \<open>One row with an image payload, saved into an empty store.\<close>

theorem saveSession_strips_imageData_witness:
  "\<exists>s ls' a' h'.
     saveSession \<lparr>items = Map.empty, accepts = (\<lambda>t. True)\<rparr>
       \<lparr>uuid = js ''u1'', now = 7, label = js ''Session''\<rparr>
       [\<lparr>row_id = js ''r1'', original = js ''a cat'', rewritten = None, status = Pending,
         imagePath = Some (js ''cat.png''), imageData = Some (js ''data:image/png;base64,AAAA''),
         error = None\<rparr>]
       \<lparr>total = 1, completed = 0, failed = 0\<rparr> = Inr (s, ls') \<and>
     session_data s =
       [\<lparr>row_id = js ''r1'', original = js ''a cat'', rewritten = None, status = Pending,
         imagePath = Some (js ''cat.png''), imageData = None, error = None\<rparr>] \<and>
     stripImageData_heap
       [RowObj \<lparr>row_id = js ''r1'', original = js ''a cat'', rewritten = None, status = Pending,
         imagePath = Some (js ''cat.png''), imageData = Some (js ''data:image/png;base64,AAAA''),
         error = None\<rparr>, ArrObj [0]] 1 = Some (a', h') \<and>
     read_rows h' 1 =
       Some [\<lparr>row_id = js ''r1'', original = js ''a cat'', rewritten = None, status = Pending,
         imagePath = Some (js ''cat.png''), imageData = Some (js ''data:image/png;base64,AAAA''),
         error = None\<rparr>] \<and>
     read_rows h' a' =
       Some [\<lparr>row_id = js ''r1'', original = js ''a cat'', rewritten = None, status = Pending,
         imagePath = Some (js ''cat.png''), imageData = None, error = None\<rparr>]"
proof -
  let ?ls = "\<lparr>items = Map.empty, accepts = (\<lambda>t. True)\<rparr>"
  let ?env = "\<lparr>uuid = js ''u1'', now = 7, label = js ''Session''\<rparr>"
  let ?r = "\<lparr>row_id = js ''r1'', original = js ''a cat'', rewritten = None, status = Pending,
         imagePath = Some (js ''cat.png''), imageData = Some (js ''data:image/png;base64,AAAA''),
         error = None\<rparr>"
  let ?st = "\<lparr>total = 1, completed = 0, failed = 0\<rparr>"
  let ?h = "[RowObj ?r, ArrObj [0]]"
  have g: "getSessions ?ls = Inr (JArray [])" by (simp add: getSessions_absent)
  from saveSession_ok [of ?ls "[]" ?env "[?r]" ?st] g obtain s ls' where
    s: "saveSession ?ls ?env [?r] ?st = Inr (s, ls')"
    by auto
  have rr: "read_rows ?h 1 = Some [?r]"
    by (simp add: read_rows_def read_row_def)
  note t = saveSession_strips_imageData
    [where ls = ?ls and env = ?env and rows = "[?r]" and st = ?st and s = s and ls' = ls'
       and h = ?h and a = 1]
  from t s have d: "session_data s = [?r\<lparr>imageData := None\<rparr>]"
    by (cases "session_data s") auto
  from t rr obtain a' h' where
    "stripImageData_heap ?h 1 = Some (a', h')" "read_rows h' 1 = Some [?r]"
    "read_rows h' a' = Some (stripImageData [?r])"
    by blast
  with s d show ?thesis by (auto simp: stripImageData_def)
qed

section \<open>Properties of the rewrite API client\<close>

lemma callOpenAICompatibleApi_image:
  "truthy (input_imageData input) \<Longrightarrow>
   callOpenAICompatibleApi net apiKey modelName input systemInstruction =
     (Inl (modelName @ text_only_message), [])"
  by (simp add: callOpenAICompatibleApi_def)

text \<open>
  Claim C7, as amended. For every input that carries an image payload and every model
  name that does not contain \<open>gemini\<close>, \<open>rewriteCaption\<close> throws and makes no network
  request; when the API key is not empty the message is the one that rejects the
  image, the model name followed by the text-only notice; and when the API key is empty
  the message is \<open>API Key is missing\<close>.
\<close>

theorem rewriteCaption_rejects_image:
  assumes "truthy (input_imageData input)"
    and "\<not> includes_str modelName (js ''gemini'')"
  shows "(\<exists>m. rewriteCaption P net apiKey modelName input customRules = (Inl m, [])) \<and>
         (apiKey \<noteq> [] \<longrightarrow>
            rewriteCaption P net apiKey modelName input customRules =
              (Inl (modelName @ text_only_message), [])) \<and>
         (apiKey = [] \<longrightarrow>
            rewriteCaption P net apiKey modelName input customRules =
              (Inl (js ''API Key is missing''), []))"
  using assms by (simp add: rewriteCaption_def callOpenAICompatibleApi_image Let_def)

text \<open>An image sent to \<open>deepseek-chat\<close> with a key.\<close>

theorem rewriteCaption_rejects_image_witness:
  "rewriteCaption []
     \<lparr>fetch = (\<lambda>r. HttpOk None), generateContent = (\<lambda>r. SdkText None), reply_json = (\<lambda>t. None)\<rparr>
     (js ''sk-1'') (js ''deepseek-chat'')
     \<lparr>input_text = Some (js ''a cat''), input_imageData = Some (js ''data:image/png;base64,AAAA'')\<rparr>
     [] = (Inl (js ''deepseek-chat'' @ text_only_message), [])"
  using rewriteCaption_rejects_image
    [of "\<lparr>input_text = Some (js ''a cat''),
          input_imageData = Some (js ''data:image/png;base64,AAAA'')\<rparr>"
        "js ''deepseek-chat''" "[]"
        "\<lparr>fetch = (\<lambda>r. HttpOk None), generateContent = (\<lambda>r. SdkText None),
          reply_json = (\<lambda>t. None)\<rparr>"
        "js ''sk-1''" "[]"]
  by (simp add: truthy_def js_def)

text \<open>
  The claim as stated fails when the API key is empty: the image is not what the message
  rejects.
\<close>

theorem rewriteCaption_rejects_image_counterexample:
  "truthy (input_imageData
      \<lparr>input_text = None, input_imageData = Some (js ''data:image/png;base64,AAAA'')\<rparr>) \<and>
   \<not> includes_str (js ''deepseek-chat'') (js ''gemini'') \<and>
   rewriteCaption []
     \<lparr>fetch = (\<lambda>r. HttpOk None), generateContent = (\<lambda>r. SdkText None), reply_json = (\<lambda>t. None)\<rparr>
     [] (js ''deepseek-chat'')
     \<lparr>input_text = None, input_imageData = Some (js ''data:image/png;base64,AAAA'')\<rparr> []
     = (Inl (js ''API Key is missing''), []) \<and>
   js ''API Key is missing'' \<noteq> js ''deepseek-chat'' @ text_only_message"
  by (simp add: rewriteCaption_def truthy_def js_def text_only_message_def)

section \<open>Properties of the batch processor\<close>

lemma map_snd_filter_zip:
  "map snd (filter (\<lambda>(r, i). Q r) (zip rows [0..<length rows])) =
     filter (\<lambda>i. Q (rows ! i)) [0..<length rows]"
proof -
  have "filter (\<lambda>(r, i). Q r) (zip rows [0..<length rows]) =
        filter ((\<lambda>i. Q (rows ! i)) \<circ> snd) (zip rows [0..<length rows])"
    by (rule filter_cong) (auto simp: in_set_zip)
  then have "map snd (filter (\<lambda>(r, i). Q r) (zip rows [0..<length rows])) =
        filter (\<lambda>i. Q (rows ! i)) (map snd (zip rows [0..<length rows]))"
    by (simp only: filter_map)
  then show ?thesis by simp
qed

lemma map_snd_items_of: "map snd (items_of rows) = eligible_indices rows"
  by (simp add: items_of_def eligible_indices_def map_snd_filter_zip)

lemma length_items_of: "length (items_of rows) = length (filter eligible rows)"
proof -
  have "(\<lambda>(item, i). eligible item) = eligible \<circ> (fst :: CaptionRow \<times> nat \<Rightarrow> CaptionRow)"
    by (auto simp: fun_eq_iff)
  then have "map fst (filter (\<lambda>(item, i). eligible item) (zip rows [0..<length rows])) =
        filter eligible (map fst (zip rows [0..<length rows]))"
    by (simp only: filter_map)
  then have "map fst (items_of rows) = filter eligible rows"
    by (simp add: items_of_def)
  then show ?thesis by (metis length_map)
qed

lemma items_of_nth:
  assumes "k < length (items_of rows)"
  shows "snd (items_of rows ! k) < length rows \<and>
         fst (items_of rows ! k) = rows ! snd (items_of rows ! k) \<and>
         eligible (rows ! snd (items_of rows ! k))"
proof -
  from assms have "items_of rows ! k \<in> set (items_of rows)" by simp
  then show ?thesis
    by (auto simp: items_of_def in_set_zip)
qed

lemma distinct_eligible_indices: "distinct (eligible_indices rows)"
  by (simp add: eligible_indices_def)

lemma set_eligible_indices:
  "set (eligible_indices rows) = {i. i < length rows \<and> eligible (rows ! i)}"
  by (auto simp: eligible_indices_def)

lemma nth_notin_take: "distinct xs \<Longrightarrow> k < length xs \<Longrightarrow> xs ! k \<notin> set (take k xs)"
  by (metis distinct_take id_take_nth_drop not_distinct_conv_prefix distinct_append
      disjoint_iff list.set_intros(1) set_append Un_iff Cons_nth_drop_Suc append_take_drop_id distinct.simps(2))

lemma upd_run_fields [simp]:
  "data (upd_run r f s) = data s" "stopProcessingRef (upd_run r f s) = stopProcessingRef s"
  "isProcessing (upd_run r f s) = isProcessing s"
  "processingStats (upd_run r f s) = processingStats s"
  "length (runs (upd_run r f s)) = length (runs s)"
  by (simp_all add: upd_run_def)

lemma upd_run_nth:
  "r < length (runs s) \<Longrightarrow> runs (upd_run r f s) ! r' = (if r' = r then f (runs s ! r) else runs s ! r')"
  by (simp add: upd_run_def nth_list_update)

lemma upd_run_take: "take r (runs (upd_run r f s)) = take r (runs s)"
  by (simp add: upd_run_def)

text \<open>One pass of the loop either claims the next row or returns.\<close>

lemma worker_loop_cases:
  assumes "worker_loop rw r s = (s', x)" and "r < length (runs s)"
  obtains (claim) item oi where
      "index (runs s ! r) < length (itemsToProcess (runs s ! r))" "\<not> stopProcessingRef s"
      "itemsToProcess (runs s ! r) ! index (runs s ! r) = (item, oi)"
      "data s' = update_row oi mark_processing (data s)"
      "runs s' = (runs s)[r := (runs s ! r)\<lparr>index := Suc (index (runs s ! r)),
          calls := calls (runs s ! r) @ [oi]\<rparr>]"
      "stopProcessingRef s' = stopProcessingRef s"
      "x = Waiting oi (rw r oi (mk_input item))"
    | (stop) "x = Finished" "s' = s"
      "stopProcessingRef s \<or> length (itemsToProcess (runs s ! r)) \<le> index (runs s ! r)"
proof (cases "index (runs s ! r) < length (itemsToProcess (runs s ! r)) \<and> \<not> stopProcessingRef s")
  case True
  obtain item oi where io: "itemsToProcess (runs s ! r) ! index (runs s ! r) = (item, oi)"
    by (cases "itemsToProcess (runs s ! r) ! index (runs s ! r)") auto
  from assms True io have
    "data s' = update_row oi mark_processing (data s)"
    "runs s' = (runs s)[r := (runs s ! r)\<lparr>index := Suc (index (runs s ! r)),
          calls := calls (runs s ! r) @ [oi]\<rparr>]"
    "stopProcessingRef s' = stopProcessingRef s"
    "x = Waiting oi (rw r oi (mk_input item))"
    by (auto simp: worker_loop_def Let_def upd_run_def)
  with True io show ?thesis by (intro claim) auto
next
  case False
  with assms have "x = Finished" "s' = s"
    by (auto simp: worker_loop_def Let_def split: if_splits)
  with False show ?thesis by (intro stop) auto
qed

lemma waits_update:
  "w < length ws \<Longrightarrow>
   waits (ws[w := x]) w' j = (if w' = w then (\<exists>res. x = Waiting j res) else waits ws w' j)"
  by (auto simp: waits_def nth_list_update)

lemma waits_append_Finished: "waits (ws @ [Finished]) w j = waits ws w j"
  by (auto simp: waits_def nth_append less_Suc_eq)

lemma awaited_append_Finished: "awaited (ws @ [Finished]) j = awaited ws j"
  by (simp add: awaited_def waits_append_Finished)



lemma inv_items: "inv rw r rows ws dat c \<Longrightarrow> itemsToProcess c = items_of rows"
  by (simp add: inv_def)

lemma inv_index: "inv rw r rows ws dat c \<Longrightarrow> index c \<le> length (items_of rows)"
  by (simp add: inv_def)

lemma inv_calls: "inv rw r rows ws dat c \<Longrightarrow> calls c = take (index c) (eligible_indices rows)"
  by (simp add: inv_def)

lemma inv_length: "inv rw r rows ws dat c \<Longrightarrow> length dat = length rows"
  by (simp add: inv_def)

lemma inv_worker:
  "inv rw r rows ws dat c \<Longrightarrow> w < length ws \<Longrightarrow> ws ! w = Waiting j res \<Longrightarrow>
     j \<in> set (calls c) \<and> res = rw r j (mk_input (rows ! j))"
  unfolding inv_def by blast

lemma inv_unique: "inv rw r rows ws dat c \<Longrightarrow> waits ws w j \<Longrightarrow> waits ws w' j \<Longrightarrow> w = w'"
  unfolding inv_def by blast

lemma inv_data:
  "inv rw r rows ws dat c \<Longrightarrow> j < length rows \<Longrightarrow>
     dat ! j =
       (if j \<in> set (calls c)
        then (if awaited ws j then mark_processing (rows ! j) else settle rw r j (rows ! j))
        else rows ! j)"
  unfolding inv_def by blast

lemma invI:
  assumes "itemsToProcess c = items_of rows"
    and "index c \<le> length (items_of rows)"
    and "calls c = take (index c) (eligible_indices rows)"
    and "length dat = length rows"
    and "\<And>w j res. w < length ws \<Longrightarrow> ws ! w = Waiting j res \<Longrightarrow>
           j \<in> set (calls c) \<and> res = rw r j (mk_input (rows ! j))"
    and "\<And>w w' j. waits ws w j \<Longrightarrow> waits ws w' j \<Longrightarrow> w = w'"
    and "\<And>j. j < length rows \<Longrightarrow>
           dat ! j =
             (if j \<in> set (calls c)
              then (if awaited ws j then mark_processing (rows ! j) else settle rw r j (rows ! j))
              else rows ! j)"
  shows "inv rw r rows ws dat c"
  unfolding inv_def using assms by blast

lemma inv_workers_upd [simp]: "inv rw r rows ws dat (c\<lparr>workers := X\<rparr>) = inv rw r rows ws dat c"
  by (simp add: inv_def)

lemma calls_lt_length:
  assumes "inv rw r rows ws dat c" "j \<in> set (calls c)"
  shows "j < length rows" "eligible (rows ! j)"
proof -
  from assms have "j \<in> set (eligible_indices rows)"
    by (auto simp: inv_calls dest: in_set_takeD)
  then show "j < length rows" "eligible (rows ! j)"
    by (auto simp: set_eligible_indices)
qed

lemma inv_append_Finished:
  assumes i: "inv rw r rows ws dat c"
  shows "inv rw r rows (ws @ [Finished]) dat c"
proof (rule invI)
  fix w j res assume "w < length (ws @ [Finished])" "(ws @ [Finished]) ! w = Waiting j res"
  then have "w < length ws \<and> ws ! w = Waiting j res"
    by (auto simp: nth_append less_Suc_eq split: if_splits)
  then show "j \<in> set (calls c) \<and> res = rw r j (mk_input (rows ! j))"
    using inv_worker [OF i] by blast
next
  fix w w' j assume "waits (ws @ [Finished]) w j" "waits (ws @ [Finished]) w' j"
  then show "w = w'" using inv_unique [OF i] by (simp add: waits_append_Finished)
next
  fix j assume "j < length rows"
  then show "dat ! j =
             (if j \<in> set (calls c)
              then (if awaited (ws @ [Finished]) j then mark_processing (rows ! j)
                    else settle rw r j (rows ! j))
              else rows ! j)"
    using inv_data [OF i] by (simp add: awaited_append_Finished)
qed (use i in \<open>simp_all add: inv_items inv_index inv_calls inv_length\<close>)

lemma inv_write_back:
  assumes i: "inv rw r rows ws dat c" and w: "w < length ws" and ww: "ws ! w = Waiting oi res"
  shows "inv rw r rows (ws[w := Finished]) (update_row oi (write_back res) dat) c"
proof -
  let ?ws = "ws[w := Finished]"
  have wt: "waits ws w oi" using w ww by (auto simp: waits_def)
  have oic: "oi \<in> set (calls c)" and res: "res = rw r oi (mk_input (rows ! oi))"
    using inv_worker [OF i w ww] by auto
  have oil: "oi < length rows" using calls_lt_length [OF i oic] by simp
  have wu: "\<And>w' j. waits ?ws w' j = (w' \<noteq> w \<and> waits ws w' j)"
    using w by (auto simp: waits_update)
  have a1: "\<not> awaited ?ws oi"
    using inv_unique [OF i wt] by (auto simp: awaited_def wu)
  have a2: "awaited ?ws j = awaited ws j" if "j \<noteq> oi" for j
  proof -
    from that have "\<not> waits ws w j" using ww by (auto simp: waits_def)
    then show ?thesis by (auto simp: awaited_def wu)
  qed
  have len: "length dat = length rows" using i by (rule inv_length)
  have d_oi: "dat ! oi = mark_processing (rows ! oi)"
    using inv_data [OF i oil] oic wt by (auto simp: awaited_def)
  show ?thesis
  proof (rule invI)
    fix j assume j: "j < length rows"
    show "update_row oi (write_back res) dat ! j =
           (if j \<in> set (calls c)
            then (if awaited ?ws j then mark_processing (rows ! j) else settle rw r j (rows ! j))
            else rows ! j)"
    proof (cases "j = oi")
      case True
      then show ?thesis
        using oil len d_oi oic a1 res by (simp add: update_row_def settle_def)
    next
      case False
      then show ?thesis
        using j len inv_data [OF i j] a2 [OF False] by (simp add: update_row_def)
    qed
  next
    fix w' j x assume a: "w' < length ?ws" "?ws ! w' = Waiting j x"
    then have "w' \<noteq> w" using w by auto
    with a have "w' < length ws" "ws ! w' = Waiting j x" by auto
    then show "j \<in> set (calls c) \<and> x = rw r j (mk_input (rows ! j))"
      using inv_worker [OF i] by simp
  next
    fix w1 w2 j assume "waits ?ws w1 j" "waits ?ws w2 j"
    then show "w1 = w2" using inv_unique [OF i] by (auto simp: wu)
  qed (use i len in \<open>simp_all add: inv_items inv_index inv_calls update_row_def\<close>)
qed

lemma inv_claim:
  assumes i: "inv rw r rows ws dat c" and w: "w < length ws" and ww: "ws ! w = Finished"
    and k0: "index c < length (itemsToProcess c)"
    and io: "itemsToProcess c ! index c = (item, oi)"
  shows "inv rw r rows (ws[w := Waiting oi (rw r oi (mk_input item))])
           (update_row oi mark_processing dat)
           (c\<lparr>index := Suc (index c), calls := calls c @ [oi]\<rparr>)"
proof -
  let ?x = "Waiting oi (rw r oi (mk_input item))"
  let ?ws = "ws[w := ?x]"
  let ?c = "c\<lparr>index := Suc (index c), calls := calls c @ [oi]\<rparr>"
  let ?E = "eligible_indices rows"
  have it: "itemsToProcess c = items_of rows" using i by (rule inv_items)
  have k: "index c < length (items_of rows)" using k0 it by simp
  have kE: "index c < length ?E" using k by (simp flip: map_snd_items_of)
  from items_of_nth [OF k] io it
  have oil: "oi < length rows" and item: "item = rows ! oi"
    by auto
  have oiE: "oi = ?E ! index c"
    using io it k by (simp flip: map_snd_items_of)
  have cs: "calls c = take (index c) ?E" using i by (rule inv_calls)
  have cs': "calls ?c = take (index ?c) ?E"
    using cs oiE kE by (simp add: take_Suc_conv_app_nth)
  have fresh: "oi \<notin> set (calls c)"
    using nth_notin_take [OF distinct_eligible_indices kE] cs oiE by simp
  have sub: "set (calls ?c) = insert oi (set (calls c))" by simp
  have nw: "\<And>j. \<not> waits ws w j" using ww by (auto simp: waits_def)
  have wu: "\<And>w' j. waits ?ws w' j = ((w' = w \<and> j = oi) \<or> waits ws w' j)"
    using w nw by (auto simp: waits_update)
  have noa: "\<not> awaited ws oi"
    using inv_worker [OF i] fresh by (auto simp: awaited_def waits_def)
  have aw: "\<And>j. awaited ?ws j = (j = oi \<or> awaited ws j)"
    by (auto simp: awaited_def wu)
  have len: "length dat = length rows" using i by (rule inv_length)
  show ?thesis
  proof (rule invI)
    fix j assume j: "j < length rows"
    show "update_row oi mark_processing dat ! j =
           (if j \<in> set (calls ?c)
            then (if awaited ?ws j then mark_processing (rows ! j) else settle rw r j (rows ! j))
            else rows ! j)"
    proof (cases "j = oi")
      case True
      have "dat ! oi = rows ! oi" using inv_data [OF i oil] fresh by simp
      then show ?thesis
        using True oil len aw by (simp add: update_row_def)
    next
      case False
      then show ?thesis
        using j len inv_data [OF i j] aw by (simp add: update_row_def)
    qed
  next
    fix w' j x assume a: "w' < length ?ws" "?ws ! w' = Waiting j x"
    show "j \<in> set (calls ?c) \<and> x = rw r j (mk_input (rows ! j))"
    proof (cases "w' = w")
      case True
      with a w item show ?thesis by auto
    next
      case False
      with a have "w' < length ws" "ws ! w' = Waiting j x" by auto
      then show ?thesis using inv_worker [OF i] by auto
    qed
  next
    fix w1 w2 j assume a: "waits ?ws w1 j" "waits ?ws w2 j"
    have "\<And>w'. waits ws w' oi \<Longrightarrow> False" using noa by (auto simp: awaited_def)
    with a show "w1 = w2" using inv_unique [OF i] by (auto simp: wu)
  next
    show "index ?c \<le> length (items_of rows)" using k by simp
    show "itemsToProcess ?c = items_of rows" using it by simp
    show "calls ?c = take (index ?c) ?E" by (rule cs')
    show "length (update_row oi mark_processing dat) = length rows"
      using len by (simp add: update_row_def)
  qed
qed


lemma worker_loop_frame:
  assumes "worker_loop rw r s = (s', x)" and "r < length (runs s)"
  shows "length (runs s') = length (runs s)"
    and "r' \<noteq> r \<Longrightarrow> runs s' ! r' = runs s ! r'"
    and "workers (runs s' ! r) = workers (runs s ! r)"
    and "itemsToProcess (runs s' ! r) = itemsToProcess (runs s ! r)"
    and "stopProcessingRef s' = stopProcessingRef s"
    and "length (data s') = length (data s)"
    and "take r (runs s') = take r (runs s)"
  using assms(1,2)
  by (cases rule: worker_loop_cases; simp add: update_row_def)+

lemma inv_loop:
  assumes i: "inv rw r rows ws (data s) (runs s ! r)" and r: "r < length (runs s)"
    and w: "w < length ws" and ww: "ws ! w = Finished"
    and l: "worker_loop rw r s = (s', x)"
  shows "inv rw r rows (ws[w := x]) (data s') (runs s' ! r)"
  using l r
proof (cases rule: worker_loop_cases)
  case stop
  then have "ws[w := x] = ws" using ww w by (simp add: list_update_same_conv)
  with stop i show ?thesis by simp
next
  case (claim item oi)
  have "runs s' ! r = (runs s ! r)\<lparr>index := Suc (index (runs s ! r)),
          calls := calls (runs s ! r) @ [oi]\<rparr>"
    using claim(5) r by simp
  with inv_claim [OF i w ww claim(1) claim(3)] claim(4) claim(7) show ?thesis by simp
qed

lemma spawn_cases:
  "\<exists>s' x. (stopProcessingRef s \<longrightarrow> s' = s \<and> x = Finished) \<and>
     (\<not> stopProcessingRef s \<longrightarrow> worker_loop rw r s = (s', x)) \<and>
     spawn rw r s = upd_run r (\<lambda>c. c\<lparr>workers := workers c @ [x]\<rparr>) s'"
  by (cases "worker_loop rw r s") (simp add: spawn_def)

lemma inv_spawn:
  assumes i: "inv rw r rows (workers (runs s ! r)) (data s) (runs s ! r)"
    and r: "r < length (runs s)"
  shows "inv rw r rows (workers (runs (spawn rw r s) ! r)) (data (spawn rw r s))
           (runs (spawn rw r s) ! r)"
    and "length (runs (spawn rw r s)) = length (runs s)"
    and "take r (runs (spawn rw r s)) = take r (runs s)"
    and "stopProcessingRef (spawn rw r s) = stopProcessingRef s"
proof -
  let ?ws = "workers (runs s ! r)"
  obtain s' x where
    st: "stopProcessingRef s \<Longrightarrow> s' = s \<and> x = Finished" and
    ru: "\<not> stopProcessingRef s \<Longrightarrow> worker_loop rw r s = (s', x)" and
    sp: "spawn rw r s = upd_run r (\<lambda>c. c\<lparr>workers := workers c @ [x]\<rparr>) s'"
    using spawn_cases [of s rw r] by blast
  have fr: "length (runs s') = length (runs s) \<and> workers (runs s' ! r) = ?ws \<and>
      stopProcessingRef s' = stopProcessingRef s \<and> take r (runs s') = take r (runs s)"
  proof (cases "stopProcessingRef s")
    case True
    with st show ?thesis by simp
  next
    case False
    from worker_loop_frame [OF ru [OF False] r] show ?thesis by simp
  qed
  have i': "inv rw r rows (?ws @ [x]) (data s') (runs s' ! r)"
  proof (cases "stopProcessingRef s")
    case True
    with st inv_append_Finished [OF i] show ?thesis by simp
  next
    case False
    have "inv rw r rows ((?ws @ [Finished])[length ?ws := x]) (data s') (runs s' ! r)"
      by (rule inv_loop [OF inv_append_Finished [OF i] r _ _ ru [OF False]]) simp_all
    then show ?thesis by simp
  qed
  have r': "r < length (runs s')" using fr r by simp
  have n: "runs (spawn rw r s) ! r = (runs s' ! r)\<lparr>workers := ?ws @ [x]\<rparr>"
    unfolding sp using r' fr by (simp add: upd_run_nth)
  show "inv rw r rows (workers (runs (spawn rw r s) ! r)) (data (spawn rw r s))
           (runs (spawn rw r s) ! r)"
    unfolding n using i' by (simp add: sp)
  show "length (runs (spawn rw r s)) = length (runs s)" using fr by (simp add: sp)
  show "take r (runs (spawn rw r s)) = take r (runs s)" using fr by (simp add: sp upd_run_take)
  show "stopProcessingRef (spawn rw r s) = stopProcessingRef s" using fr by (simp add: sp)
qed

lemma after_all_fields [simp]:
  "data (after_all r s) = data s" "runs (after_all r s) = runs s"
  "stopProcessingRef (after_all r s) = stopProcessingRef s"
  "processingStats (after_all r s) = processingStats s"
  by (simp_all add: after_all_def)

lemma resume_cases:
  assumes "resume rw r w s = Some s'"
  obtains oi res s2 x where
    "r < length (runs s)" "w < length (workers (runs s ! r))"
    "workers (runs s ! r) ! w = Waiting oi res"
    "worker_loop rw r (s\<lparr>data := update_row oi (write_back res) (data s),
        processingStats := count_result res (processingStats s)\<rparr>) = (s2, x)"
    "s' = after_all r (upd_run r (\<lambda>c. c\<lparr>workers := (workers c)[w := x]\<rparr>) s2)"
proof -
  from assms have r: "r < length (runs s)" and w: "w < length (workers (runs s ! r))"
    by (auto simp: resume_def split: if_splits)
  with assms obtain oi res where ww: "workers (runs s ! r) ! w = Waiting oi res"
    by (auto simp: resume_def split: if_splits worker.splits)
  let ?s1 = "s\<lparr>data := update_row oi (write_back res) (data s),
              processingStats := count_result res (processingStats s)\<rparr>"
  obtain s2 x where l: "worker_loop rw r ?s1 = (s2, x)" by (cases "worker_loop rw r ?s1") auto
  from assms r w ww l
  have "s' = after_all r (upd_run r (\<lambda>c. c\<lparr>workers := (workers c)[w := x]\<rparr>) s2)"
    by (simp add: resume_def)
  with r w ww l show ?thesis by (rule that)
qed

text \<open>What a resolution does to the closure of its run and to the rest.\<close>

lemma resume_frame:
  assumes "resume rw r w s = Some s'"
  obtains oi res s2 x where
    "r < length (runs s)" "w < length (workers (runs s ! r))"
    "workers (runs s ! r) ! w = Waiting oi res"
    "worker_loop rw r (s\<lparr>data := update_row oi (write_back res) (data s),
        processingStats := count_result res (processingStats s)\<rparr>) = (s2, x)"
    "data s' = data s2" "stopProcessingRef s' = stopProcessingRef s"
    "length (runs s') = length (runs s)" "take r (runs s') = take r (runs s)"
    "runs s' ! r = (runs s2 ! r)\<lparr>workers := (workers (runs s ! r))[w := x]\<rparr>"
    "\<And>r'. r' \<noteq> r \<Longrightarrow> runs s' ! r' = runs s ! r'"
  using assms
proof (cases rule: resume_cases)
  case (1 oi res s2 x)
  let ?s1 = "s\<lparr>data := update_row oi (write_back res) (data s),
              processingStats := count_result res (processingStats s)\<rparr>"
  have r1: "r < length (runs ?s1)" using 1(1) by simp
  note f = worker_loop_frame [OF 1(4) r1]
  have r2: "r < length (runs s2)" using f(1) 1(1) by simp
  have a: "data s' = data s2" using 1(5) by simp
  have b: "stopProcessingRef s' = stopProcessingRef s" using 1(5) f(5) by simp
  have c: "length (runs s') = length (runs s)" using 1(5) f(1) by simp
  have d: "take r (runs s') = take r (runs s)" using 1(5) f(7) by (simp add: upd_run_take)
  have e: "runs s' ! r = (runs s2 ! r)\<lparr>workers := (workers (runs s ! r))[w := x]\<rparr>"
    using 1(5) r2 f(3) by (simp add: upd_run_nth)
  have g: "runs s' ! r' = runs s ! r'" if "r' \<noteq> r" for r'
    using 1(5) r2 f(2) [OF that] that by (simp add: upd_run_nth)
  from 1(1,2,3,4) a b c d e g show ?thesis by (rule that)
qed

lemma inv_resume:
  assumes i: "inv rw r rows (workers (runs s ! r)) (data s) (runs s ! r)"
    and re: "resume rw r w s = Some s'"
  shows "inv rw r rows (workers (runs s' ! r)) (data s') (runs s' ! r)"
  using re
proof (cases rule: resume_frame)
  case (1 oi res s2 x)
  let ?s1 = "s\<lparr>data := update_row oi (write_back res) (data s),
              processingStats := count_result res (processingStats s)\<rparr>"
  have a: "inv rw r rows ((workers (runs s ! r))[w := Finished]) (data ?s1) (runs ?s1 ! r)"
    using inv_write_back [OF i 1(2) 1(3)] by simp
  have r1: "r < length (runs ?s1)" using 1(1) by simp
  have "inv rw r rows (((workers (runs s ! r))[w := Finished])[w := x]) (data s2) (runs s2 ! r)"
    by (rule inv_loop [OF a r1 _ _ 1(4)]) (use 1(2) in simp_all)
  then show ?thesis using 1(5) 1(9) by simp
qed


lemma filter_length_update:
  "w < length ws \<Longrightarrow>
   length (filter P (ws[w := x])) + (if P (ws ! w) then 1 else 0) =
   length (filter P ws) + (if P x then 1 else 0)"
proof (induction ws arbitrary: w)
  case Nil
  then show ?case by simp
next
  case (Cons a ws)
  then show ?case by (cases w) auto
qed

text \<open>What an event does to the closure of its run.\<close>

lemma resume_closure:
  assumes "resume rw r w s = Some s'"
  obtains (claim) item oi where
      "w < length (workers (runs s ! r))" "workers (runs s ! r) ! w \<noteq> Finished"
      "\<not> stopProcessingRef s" "index (runs s ! r) < length (itemsToProcess (runs s ! r))"
      "itemsToProcess (runs s ! r) ! index (runs s ! r) = (item, oi)"
      "runs s' ! r = (runs s ! r)\<lparr>index := Suc (index (runs s ! r)),
          calls := calls (runs s ! r) @ [oi],
          workers := (workers (runs s ! r))[w := Waiting oi (rw r oi (mk_input item))]\<rparr>"
      "stopProcessingRef s' = stopProcessingRef s"
    | (stop)
      "w < length (workers (runs s ! r))" "workers (runs s ! r) ! w \<noteq> Finished"
      "stopProcessingRef s \<or> length (itemsToProcess (runs s ! r)) \<le> index (runs s ! r)"
      "runs s' ! r = (runs s ! r)\<lparr>workers := (workers (runs s ! r))[w := Finished]\<rparr>"
      "stopProcessingRef s' = stopProcessingRef s"
  using assms
proof (cases rule: resume_frame)
  case (1 oi0 res s2 x)
  let ?s1 = "s\<lparr>data := update_row oi0 (write_back res) (data s),
              processingStats := count_result res (processingStats s)\<rparr>"
  have r1: "r < length (runs ?s1)" using 1(1) by simp
  have nf: "workers (runs s ! r) ! w \<noteq> Finished" using 1(3) by simp
  from 1(4) r1 show ?thesis
  proof (cases rule: worker_loop_cases)
    case (claim item oi)
    have "runs s2 ! r = (runs s ! r)\<lparr>index := Suc (index (runs s ! r)),
          calls := calls (runs s ! r) @ [oi]\<rparr>"
      using claim(5) 1(1) by simp
    with 1(9) claim(7)
    have "runs s' ! r = (runs s ! r)\<lparr>index := Suc (index (runs s ! r)),
          calls := calls (runs s ! r) @ [oi],
          workers := (workers (runs s ! r))[w := Waiting oi (rw r oi (mk_input item))]\<rparr>"
      by simp
    moreover have "\<not> stopProcessingRef s" using claim(2) by simp
    moreover have "index (runs s ! r) < length (itemsToProcess (runs s ! r))"
      using claim(1) by simp
    moreover have "itemsToProcess (runs s ! r) ! index (runs s ! r) = (item, oi)"
      using claim(3) by simp
    ultimately show ?thesis using 1(2) nf 1(6) by (intro that(1) [of item oi]) auto
  next
    case stop
    have "runs s' ! r = (runs s ! r)\<lparr>workers := (workers (runs s ! r))[w := Finished]\<rparr>"
      using 1(9) stop(1,2) by simp
    moreover have "stopProcessingRef s \<or>
        length (itemsToProcess (runs s ! r)) \<le> index (runs s ! r)"
      using stop(3) by simp
    ultimately show ?thesis using 1(2) nf 1(6) by (intro that(2)) auto
  qed
qed

lemma spawn_closure:
  fixes rw :: "nat \<Rightarrow> nat \<Rightarrow> rewrite_input \<Rightarrow> jsstring + RewriteResult"
  assumes r: "r < length (runs s)"
  obtains (claim) item oi where
      "\<not> stopProcessingRef s" "index (runs s ! r) < length (itemsToProcess (runs s ! r))"
      "runs (spawn rw r s) ! r = (runs s ! r)\<lparr>index := Suc (index (runs s ! r)),
          calls := calls (runs s ! r) @ [oi],
          workers := workers (runs s ! r) @ [Waiting oi (rw r oi (mk_input item))]\<rparr>"
    | (stop)
      "stopProcessingRef s \<or> length (itemsToProcess (runs s ! r)) \<le> index (runs s ! r)"
      "runs (spawn rw r s) ! r = (runs s ! r)\<lparr>workers := workers (runs s ! r) @ [Finished]\<rparr>"
proof -
  obtain s' x where
    st: "stopProcessingRef s \<Longrightarrow> s' = s \<and> x = Finished" and
    ru: "\<not> stopProcessingRef s \<Longrightarrow> worker_loop rw r s = (s', x)" and
    sp: "spawn rw r s = upd_run r (\<lambda>c. c\<lparr>workers := workers c @ [x]\<rparr>) s'"
    using spawn_cases [of s rw r] by blast
  show ?thesis
  proof (cases "stopProcessingRef s")
    case True
    with st sp r have "runs (spawn rw r s) ! r =
        (runs s ! r)\<lparr>workers := workers (runs s ! r) @ [Finished]\<rparr>"
      by (simp add: upd_run_nth)
    with True show ?thesis by (intro that(2)) auto
  next
    case False
    from ru [OF False] r show ?thesis
    proof (cases rule: worker_loop_cases)
      case (claim item oi)
      have e: "runs (spawn rw r s) ! r = (runs s ! r)\<lparr>index := Suc (index (runs s ! r)),
          calls := calls (runs s ! r) @ [oi],
          workers := workers (runs s ! r) @ [Waiting oi (rw r oi (mk_input item))]\<rparr>"
        using sp claim(5,7) r by (simp add: upd_run_nth)
      from False claim(1) e show ?thesis by (rule that(1))
    next
      case stop
      have "runs (spawn rw r s) ! r =
          (runs s ! r)\<lparr>workers := workers (runs s ! r) @ [Finished]\<rparr>"
        using sp stop(1,2) r by (simp add: upd_run_nth)
      with stop(3) show ?thesis by (intro that(2)) auto
    qed
  qed
qed

lemma remaining_resume:
  assumes "resume rw r w s = Some s'"
  shows "Suc (remaining (stopProcessingRef s') (runs s' ! r)) =
           remaining (stopProcessingRef s) (runs s ! r)"
  using assms
proof (cases rule: resume_closure)
  case (claim item oi)
  from filter_length_update [OF claim(1), of "\<lambda>w. w \<noteq> Finished"
      "Waiting oi (rw r oi (mk_input item))"] claim(2)
  show ?thesis using claim(3,4,6,7) by (simp add: remaining_def waiting_count_def)
next
  case stop
  from filter_length_update [OF stop(1), of "\<lambda>w. w \<noteq> Finished" Finished] stop(2)
  show ?thesis using stop(3,4,5) by (auto simp: remaining_def waiting_count_def)
qed

lemma remaining_spawn:
  assumes "\<not> stopProcessingRef s" and "r < length (runs s)"
  shows "remaining False (runs (spawn rw r s) ! r) = remaining False (runs s ! r)"
  using assms(2)
proof (cases rule: spawn_closure [where rw = rw])
  case (claim item oi)
  then show ?thesis by (simp add: remaining_def waiting_count_def)
next
  case stop
  with assms(1) show ?thesis by (simp add: remaining_def waiting_count_def)
qed

lemma no_early_finish_resume:
  assumes "no_early_finish (stopProcessingRef s) (runs s ! r)" and "resume rw r w s = Some s'"
  shows "no_early_finish (stopProcessingRef s') (runs s' ! r)"
  using assms(2)
proof (cases rule: resume_closure)
  case (claim item oi)
  with assms(1) have none: "\<And>w'. w' < length (workers (runs s ! r)) \<Longrightarrow>
      workers (runs s ! r) ! w' \<noteq> Finished"
    by (auto simp: no_early_finish_def)
  have "\<And>w'. w' < length (workers (runs s ! r)) \<Longrightarrow>
      (workers (runs s ! r))[w := Waiting oi (rw r oi (mk_input item))] ! w' \<noteq> Finished"
    using none claim(1) by (auto simp: nth_list_update split: if_splits)
  then show ?thesis using claim(6) by (auto simp: no_early_finish_def)
next
  case stop
  then show ?thesis by (auto simp: no_early_finish_def)
qed

lemma no_early_finish_spawn:
  assumes "no_early_finish False (runs s ! r)" and "r < length (runs s)"
    and "\<not> stopProcessingRef s"
  shows "no_early_finish False (runs (spawn rw r s) ! r)"
  using assms(2)
proof (cases rule: spawn_closure [where rw = rw])
  case (claim item oi)
  with assms(1) have none: "\<And>w'. w' < length (workers (runs s ! r)) \<Longrightarrow>
      workers (runs s ! r) ! w' \<noteq> Finished"
    by (auto simp: no_early_finish_def)
  have "\<And>w'. w' < Suc (length (workers (runs s ! r))) \<Longrightarrow>
      (workers (runs s ! r) @ [Waiting oi (rw r oi (mk_input item))]) ! w' \<noteq> Finished"
    using none by (auto simp: nth_append)
  then show ?thesis using claim(3) by (auto simp: no_early_finish_def)
next
  case stop
  with assms(3) show ?thesis by (auto simp: no_early_finish_def)
qed

text \<open>A run that is alone: only its own calls can settle.\<close>

lemma sole_length: "sole_run rw r rows s \<Longrightarrow> length (runs s) = Suc r"
  by (simp add: sole_run_def)

lemma sole_inv:
  "sole_run rw r rows s \<Longrightarrow> inv rw r rows (workers (runs s ! r)) (data s) (runs s ! r)"
  by (simp add: sole_run_def)

lemma sole_earlier: "sole_run rw r rows s \<Longrightarrow> r' < r \<Longrightarrow> run_done (runs s ! r')"
  by (simp add: sole_run_def list_all_length)

lemma run_done_Finished: "run_done c \<Longrightarrow> w < length (workers c) \<Longrightarrow> workers c ! w = Finished"
  by (simp add: run_done_def list_all_length)

lemma sole_resume_run:
  assumes so: "sole_run rw r rows s" and re: "resume rw r' w s = Some s'"
  shows "r' = r"
proof (rule ccontr)
  assume ne: "r' \<noteq> r"
  from re show False
  proof (cases rule: resume_frame)
    case (1 oi res s2 x)
    from 1(1) ne sole_length [OF so] have "r' < r" by simp
    from run_done_Finished [OF sole_earlier [OF so this] 1(2)] 1(3) show False by simp
  qed
qed

lemma sole_resume:
  assumes so: "sole_run rw r rows s" and re: "resume rw r w s = Some s'"
  shows "sole_run rw r rows s'"
proof -
  have i: "inv rw r rows (workers (runs s' ! r)) (data s') (runs s' ! r)"
    using sole_inv [OF so] re by (rule inv_resume)
  from re show ?thesis
  proof (cases rule: resume_frame)
    case (1 oi res s2 x)
    with so i show ?thesis by (simp add: sole_run_def)
  qed
qed

lemma sole_stop [simp]: "sole_run rw r rows (stopProcessing s) = sole_run rw r rows s"
  by (simp add: sole_run_def stopProcessing_def)

lemma sole_step:
  assumes "sole_run rw r rows s" and "step apiKey rw ev s = Some s'" and "ev \<noteq> Start"
  shows "sole_run rw r rows s'"
proof (cases ev)
  case (Resolve r' w)
  with assms(2) have re: "resume rw r' w s = Some s'" by (simp add: step_def)
  with sole_resume_run [OF assms(1) re] assms(1) show ?thesis by (auto intro: sole_resume)
next
  case Stop
  with assms show ?thesis by (auto simp: step_def)
next
  case Start
  with assms(3) show ?thesis by simp
qed

lemma exec_Cons_cases:
  assumes "exec apiKey rw (ev # evs) s = Some s'"
  obtains s1 where "step apiKey rw ev s = Some s1" "exec apiKey rw evs s1 = Some s'"
  using assms by (auto split: option.splits)

lemma sole_exec:
  "sole_run rw r rows s \<Longrightarrow> exec apiKey rw evs s = Some s' \<Longrightarrow> Start \<notin> set evs \<Longrightarrow>
     sole_run rw r rows s'"
proof (induction evs arbitrary: s)
  case Nil
  then show ?case by simp
next
  case (Cons ev evs)
  from Cons.prems(2) obtain s1 where
    s1: "step apiKey rw ev s = Some s1" "exec apiKey rw evs s1 = Some s'"
    by (rule exec_Cons_cases)
  from Cons.prems(3) have "ev \<noteq> Start" by auto
  from sole_step [OF Cons.prems(1) s1(1) this] Cons.IH [OF _ s1(2)] Cons.prems(3)
  show ?case by simp
qed

text \<open>What an event other than a start does to the closure of a run that is alone.\<close>

lemma sole_step_cases:
  assumes so: "sole_run rw r rows s" and st: "step apiKey rw ev s = Some s'"
    and ne: "ev \<noteq> Start"
  obtains (stopped) "ev = Stop" "s' = stopProcessing s"
    | (resolved) w where "ev = Resolve r w" "resume rw r w s = Some s'"
proof (cases ev)
  case (Resolve r' w)
  with st have re: "resume rw r' w s = Some s'" by (simp add: step_def)
  from sole_resume_run [OF so re] Resolve re show ?thesis by (intro resolved [of w]) auto
next
  case Stop
  with st show ?thesis by (intro stopped) (auto simp: step_def)
next
  case Start
  with ne show ?thesis by simp
qed

lemma remaining_step:
  assumes so: "sole_run rw r rows s" and st: "step apiKey rw ev s = Some s'"
    and ne: "ev \<noteq> Start"
  shows "remaining (stopProcessingRef s') (runs s' ! r) + (if ev = Stop then 0 else 1) \<le>
           remaining (stopProcessingRef s) (runs s ! r)"
  using so st ne
proof (cases rule: sole_step_cases)
  case stopped
  then show ?thesis by (simp add: stopProcessing_def remaining_def)
next
  case (resolved w)
  with remaining_resume [OF resolved(2)] show ?thesis by simp
qed

lemma remaining_exec:
  assumes "sole_run rw r rows s" and "exec apiKey rw evs s = Some s'" and "Start \<notin> set evs"
  shows "remaining (stopProcessingRef s') (runs s' ! r) + resolves evs \<le>
           remaining (stopProcessingRef s) (runs s ! r)"
  using assms
proof (induction evs arbitrary: s)
  case Nil
  then show ?case by (simp add: resolves_def)
next
  case (Cons ev evs)
  from Cons.prems(2) obtain s1 where
    s1: "step apiKey rw ev s = Some s1" "exec apiKey rw evs s1 = Some s'"
    by (rule exec_Cons_cases)
  from Cons.prems(3) have ne: "ev \<noteq> Start" and ns: "Start \<notin> set evs" by auto
  note so1 = sole_step [OF Cons.prems(1) s1(1) ne]
  from Cons.IH [OF so1 s1(2) ns] remaining_step [OF Cons.prems(1) s1(1) ne] ne
  show ?case by (auto simp: resolves_def split: if_splits)
qed

lemma remaining_exec_no_stop:
  assumes "sole_run rw r rows s" and "exec apiKey rw evs s = Some s'"
    and "Start \<notin> set evs" and "Stop \<notin> set evs"
  shows "remaining (stopProcessingRef s') (runs s' ! r) + length evs =
           remaining (stopProcessingRef s) (runs s ! r) \<and>
         stopProcessingRef s' = stopProcessingRef s"
  using assms
proof (induction evs arbitrary: s)
  case Nil
  then show ?case by simp
next
  case (Cons ev evs)
  from Cons.prems(2) obtain s1 where
    s1: "step apiKey rw ev s = Some s1" "exec apiKey rw evs s1 = Some s'"
    by (rule exec_Cons_cases)
  from Cons.prems(3,4) have ne: "ev \<noteq> Start" and ns: "Start \<notin> set evs"
    and ns': "ev \<noteq> Stop" "Stop \<notin> set evs" by auto
  note so1 = sole_step [OF Cons.prems(1) s1(1) ne]
  from Cons.prems(1) s1(1) ne
  have "Suc (remaining (stopProcessingRef s1) (runs s1 ! r)) =
          remaining (stopProcessingRef s) (runs s ! r) \<and>
        stopProcessingRef s1 = stopProcessingRef s"
  proof (cases rule: sole_step_cases)
    case stopped
    with ns' show ?thesis by simp
  next
    case (resolved w)
    from resolved(2) have "stopProcessingRef s1 = stopProcessingRef s"
      by (cases rule: resume_frame) simp
    with remaining_resume [OF resolved(2)] show ?thesis by simp
  qed
  then have a: "Suc (remaining (stopProcessingRef s1) (runs s1 ! r)) =
          remaining (stopProcessingRef s) (runs s ! r)"
    and b: "stopProcessingRef s1 = stopProcessingRef s" by auto
  from Cons.IH [OF so1 s1(2) ns ns'(2)]
  have c: "remaining (stopProcessingRef s') (runs s' ! r) + length evs =
          remaining (stopProcessingRef s1) (runs s1 ! r)"
    and d: "stopProcessingRef s' = stopProcessingRef s1" by auto
  from a c have "remaining (stopProcessingRef s') (runs s' ! r) + Suc (length evs) =
          remaining (stopProcessingRef s) (runs s ! r)" by linarith
  with b d show ?case by simp
qed

lemma no_early_finish_step:
  assumes so: "sole_run rw r rows s" and st: "step apiKey rw ev s = Some s'"
    and ne: "ev \<noteq> Start" and n: "no_early_finish (stopProcessingRef s) (runs s ! r)"
  shows "no_early_finish (stopProcessingRef s') (runs s' ! r)"
  using so st ne
proof (cases rule: sole_step_cases)
  case stopped
  then show ?thesis by (simp add: stopProcessing_def no_early_finish_def)
next
  case (resolved w)
  from n resolved(2) show ?thesis by (rule no_early_finish_resume)
qed

lemma no_early_finish_exec:
  assumes "sole_run rw r rows s" and "exec apiKey rw evs s = Some s'" and "Start \<notin> set evs"
    and "no_early_finish (stopProcessingRef s) (runs s ! r)"
  shows "no_early_finish (stopProcessingRef s') (runs s' ! r)"
  using assms
proof (induction evs arbitrary: s)
  case Nil
  then show ?case by simp
next
  case (Cons ev evs)
  from Cons.prems(2) obtain s1 where
    s1: "step apiKey rw ev s = Some s1" "exec apiKey rw evs s1 = Some s'"
    by (rule exec_Cons_cases)
  from Cons.prems(3) have ne: "ev \<noteq> Start" and ns: "Start \<notin> set evs" by auto
  note so1 = sole_step [OF Cons.prems(1) s1(1) ne]
  note n1 = no_early_finish_step [OF Cons.prems(1) s1(1) ne Cons.prems(4)]
  from Cons.IH [OF so1 s1(2) ns n1] show ?case .
qed

lemma workers_length_step:
  assumes so: "sole_run rw r rows s" and st: "step apiKey rw ev s = Some s'"
    and ne: "ev \<noteq> Start"
  shows "length (workers (runs s' ! r)) = length (workers (runs s ! r))"
  using so st ne
proof (cases rule: sole_step_cases)
  case stopped
  then show ?thesis by (simp add: stopProcessing_def)
next
  case (resolved w)
  from resolved(2) show ?thesis by (cases rule: resume_closure) simp_all
qed

lemma workers_length_exec:
  assumes "sole_run rw r rows s" and "exec apiKey rw evs s = Some s'" and "Start \<notin> set evs"
  shows "length (workers (runs s' ! r)) = length (workers (runs s ! r))"
  using assms
proof (induction evs arbitrary: s)
  case Nil
  then show ?case by simp
next
  case (Cons ev evs)
  from Cons.prems(2) obtain s1 where
    s1: "step apiKey rw ev s = Some s1" "exec apiKey rw evs s1 = Some s'"
    by (rule exec_Cons_cases)
  from Cons.prems(3) have ne: "ev \<noteq> Start" and ns: "Start \<notin> set evs" by auto
  note so1 = sole_step [OF Cons.prems(1) s1(1) ne]
  from Cons.IH [OF so1 s1(2) ns] workers_length_step [OF Cons.prems(1) s1(1) ne]
  show ?case by simp
qed

text \<open>Once the processing is stopped, no row is claimed as long as it is not started
  again.\<close>

lemma frozen_step:
  assumes so: "sole_run rw r rows s" and st: "step apiKey rw ev s = Some s'"
    and ne: "ev \<noteq> Start" and f: "stopProcessingRef s"
  shows "stopProcessingRef s' \<and> calls (runs s' ! r) = calls (runs s ! r)"
  using so st ne
proof (cases rule: sole_step_cases)
  case stopped
  then show ?thesis by (simp add: stopProcessing_def)
next
  case (resolved w)
  from resolved(2) show ?thesis
  proof (cases rule: resume_closure)
    case (claim item oi)
    with f show ?thesis by simp
  next
    case stop
    with f show ?thesis by simp
  qed
qed

lemma frozen_exec:
  assumes "sole_run rw r rows s" and "exec apiKey rw evs s = Some s'" and "Start \<notin> set evs"
    and "stopProcessingRef s"
  shows "stopProcessingRef s' \<and> calls (runs s' ! r) = calls (runs s ! r)"
  using assms
proof (induction evs arbitrary: s)
  case Nil
  then show ?case by simp
next
  case (Cons ev evs)
  from Cons.prems(2) obtain s1 where
    s1: "step apiKey rw ev s = Some s1" "exec apiKey rw evs s1 = Some s'"
    by (rule exec_Cons_cases)
  from Cons.prems(3) have ne: "ev \<noteq> Start" and ns: "Start \<notin> set evs" by auto
  note so1 = sole_step [OF Cons.prems(1) s1(1) ne]
  note f1 = frozen_step [OF Cons.prems(1) s1(1) ne Cons.prems(4)]
  from Cons.IH [OF so1 s1(2) ns f1 [THEN conjunct1]] f1 show ?case by simp
qed


text \<open>When no call is pending nothing can settle.\<close>

lemma quiescent_resume: "quiescent s \<Longrightarrow> resume rw r w s = None"
  by (auto simp: resume_def quiescent_def list_all_length run_done_def)

lemma quiescent_stop [simp]: "quiescent (stopProcessing s) = quiescent s"
  by (simp add: quiescent_def stopProcessing_def)

lemma quiescent_step:
  assumes "quiescent s" and "step apiKey rw ev s = Some s'" and "ev \<noteq> Start"
  shows "ev = Stop \<and> s' = stopProcessing s"
  using assms quiescent_resume [of s rw] by (cases ev) (auto simp: step_def)

lemma quiescent_exec:
  assumes "quiescent s" and "exec apiKey rw evs s = Some s'" and "Start \<notin> set evs"
  shows "runs s' = runs s \<and> data s' = data s \<and> resolves evs = 0 \<and>
         (Stop \<notin> set evs \<longrightarrow> evs = [])"
  using assms
proof (induction evs arbitrary: s)
  case Nil
  then show ?case by (simp add: resolves_def)
next
  case (Cons ev evs)
  from Cons.prems(2) obtain s1 where
    s1: "step apiKey rw ev s = Some s1" "exec apiKey rw evs s1 = Some s'"
    by (rule exec_Cons_cases)
  from Cons.prems(3) have ne: "ev \<noteq> Start" and ns: "Start \<notin> set evs" by auto
  from quiescent_step [OF Cons.prems(1) s1(1) ne]
  have ev: "ev = Stop" and s1': "s1 = stopProcessing s" by auto
  have q1: "quiescent s1" using Cons.prems(1) s1' by simp
  from Cons.IH [OF q1 s1(2) ns] ev s1' show ?case
    by (simp add: resolves_def stopProcessing_def)
qed

lemma progress:
  assumes "\<not> quiescent s"
  shows "\<exists>r w s'. step apiKey rw (Resolve r w) s = Some s'"
proof -
  from assms obtain r where r: "r < length (runs s)" "\<not> run_done (runs s ! r)"
    by (auto simp: quiescent_def list_all_length)
  then obtain w where w: "w < length (workers (runs s ! r))"
      "workers (runs s ! r) ! w \<noteq> Finished"
    by (auto simp: run_done_def list_all_length)
  then obtain oi res where "workers (runs s ! r) ! w = Waiting oi res"
    by (cases "workers (runs s ! r) ! w") auto
  with r w have "\<exists>s'. resume rw r w s = Some s'"
    by (simp add: resume_def Let_def split: prod.splits)
  then show ?thesis by (auto simp: step_def)
qed

lemma sole_runs: "sole_run rw r rows s \<Longrightarrow> runs s = take r (runs s) @ [runs s ! r]"
  by (simp add: sole_run_def take_Suc_conv_app_nth [symmetric])

lemma sole_quiescent:
  assumes "sole_run rw r rows s"
  shows "quiescent s = run_done (runs s ! r)"
proof -
  have "quiescent s = list_all run_done (take r (runs s) @ [runs s ! r])"
    using sole_runs [OF assms] by (simp add: quiescent_def)
  with assms show ?thesis by (simp add: sole_run_def)
qed

lemma sole_calls:
  assumes "sole_run rw r rows s"
  shows "calls_from r s = calls (runs s ! r)"
proof -
  have "drop r (runs s) = drop r (take r (runs s) @ [runs s ! r])"
    using sole_runs [OF assms] by simp
  also have "\<dots> = [runs s ! r]" using sole_length [OF assms] by simp
  finally show ?thesis by (simp add: calls_from_def)
qed

lemma run_done_waiting: "run_done c \<Longrightarrow> waiting_count c = 0"
  by (auto simp: waiting_count_def run_done_def list_all_iff filter_empty_conv)

lemma all_done_waiting: "list_all run_done cs \<Longrightarrow> sum_list (map waiting_count cs) = 0"
  by (induction cs) (simp_all add: run_done_waiting)

lemma sole_pending:
  assumes "sole_run rw r rows s"
  shows "pending_calls s = waiting_count (runs s ! r)"
proof -
  have "pending_calls s = sum_list (map waiting_count (take r (runs s) @ [runs s ! r]))"
    using sole_runs [OF assms] by (simp add: pending_calls_def)
  moreover have "sum_list (map waiting_count (take r (runs s))) = 0"
    using assms by (intro all_done_waiting) (simp add: sole_run_def)
  ultimately show ?thesis by simp
qed

lemma quiescent_calls: "calls_from (length (runs s)) s = []"
  by (simp add: calls_from_def)

text \<open>The state when \<open>startProcessing\<close> returns to the event loop.\<close>

lemma workers_length_spawn:
  fixes rw :: "nat \<Rightarrow> nat \<Rightarrow> rewrite_input \<Rightarrow> jsstring + RewriteResult"
  assumes "r < length (runs s)"
  shows "length (workers (runs (spawn rw r s) ! r)) = Suc (length (workers (runs s ! r)))"
  using assms by (cases rule: spawn_closure [where rw = rw]) simp_all

lemma start_early:
  assumes "apiKey = [] \<or> data s0 = []"
  shows "startProcessing apiKey rw s0 = s0"
  using assms by (auto simp: startProcessing_def)

lemma sole_start:
  assumes q: "quiescent s0" and key: "apiKey \<noteq> []" and ne: "data s0 \<noteq> []"
  shows "sole_run rw (length (runs s0)) (data s0) (startProcessing apiKey rw s0)"
    and "remaining False (runs (startProcessing apiKey rw s0) ! length (runs s0)) =
           length (filter eligible (data s0))"
    and "\<not> stopProcessingRef (startProcessing apiKey rw s0)"
    and "no_early_finish False (runs (startProcessing apiKey rw s0) ! length (runs s0))"
    and "length (workers (runs (startProcessing apiKey rw s0) ! length (runs s0))) = CONCURRENCY"
proof -
  define r where "r = length (runs s0)"
  define rows where "rows = data s0"
  define c0 where "c0 = \<lparr>itemsToProcess = items_of (data s0), index = 0, workers = [],
      calls = []\<rparr>"
  define s1 where "s1 = s0\<lparr>isProcessing := True, stopProcessingRef := False,
      runs := runs s0 @ [c0]\<rparr>"
  define P where "P n t \<longleftrightarrow> length (runs t) = Suc r \<and> take r (runs t) = runs s0 \<and>
      inv rw r rows (workers (runs t ! r)) (data t) (runs t ! r) \<and>
      \<not> stopProcessingRef t \<and>
      remaining False (runs t ! r) = length (filter eligible rows) \<and>
      no_early_finish False (runs t ! r) \<and>
      length (workers (runs t ! r)) = n" for n and t :: app_state
  have c: "runs s1 ! r = c0" by (simp add: s1_def r_def)
  have i0: "inv rw r rows [] rows c0"
    by (rule invI) (simp_all add: c0_def rows_def awaited_def waits_def)
  have p0: "P 0 s1"
    unfolding P_def c using i0
    by (simp add: s1_def r_def c0_def rows_def remaining_def waiting_count_def
        no_early_finish_def length_items_of)
  have step: "P n ((spawn rw r ^^ n) s1)" for n
  proof (induction n)
    case 0
    then show ?case using p0 by simp
  next
    case (Suc n)
    let ?t = "(spawn rw r ^^ n) s1"
    from Suc have a: "length (runs ?t) = Suc r" "take r (runs ?t) = runs s0"
      "inv rw r rows (workers (runs ?t ! r)) (data ?t) (runs ?t ! r)"
      "\<not> stopProcessingRef ?t"
      "remaining False (runs ?t ! r) = length (filter eligible rows)"
      "no_early_finish False (runs ?t ! r)"
      "length (workers (runs ?t ! r)) = n"
      by (simp_all add: P_def)
    have rl: "r < length (runs ?t)" using a(1) by simp
    note sp = inv_spawn [OF a(3) rl]
    have "P (Suc n) (spawn rw r ?t)"
      unfolding P_def
      using sp a remaining_spawn [OF a(4) rl, of rw] no_early_finish_spawn [OF a(6) rl a(4), of rw]
        workers_length_spawn [OF rl, of rw]
      by simp
    then show ?case by simp
  qed
  have "startProcessing apiKey rw s0 = after_all r ((spawn rw r ^^ CONCURRENCY) s1)"
    using key ne by (simp add: startProcessing_def Let_def s1_def r_def c0_def)
  then have p: "P CONCURRENCY (startProcessing apiKey rw s0)"
    using step [of CONCURRENCY] by (simp add: P_def)
  have d: "list_all run_done (runs s0)" using q by (simp add: quiescent_def)
  from p d show "sole_run rw (length (runs s0)) (data s0) (startProcessing apiKey rw s0)"
    and "remaining False (runs (startProcessing apiKey rw s0) ! length (runs s0)) =
           length (filter eligible (data s0))"
    and "\<not> stopProcessingRef (startProcessing apiKey rw s0)"
    and "no_early_finish False (runs (startProcessing apiKey rw s0) ! length (runs s0))"
    and "length (workers (runs (startProcessing apiKey rw s0) ! length (runs s0))) = CONCURRENCY"
    by (simp_all add: P_def sole_run_def r_def rows_def)
qed

text \<open>The states a run started from a quiescent state can reach while the processing is
  not started again: either the start returned at once and nothing happens, or the run is
  alone.\<close>

lemma run_state:
  assumes q: "quiescent s0" and ex: "exec apiKey rw evs (startProcessing apiKey rw s0) = Some s"
    and ns: "Start \<notin> set evs"
  obtains (early) "apiKey = [] \<or> data s0 = []" "quiescent s" "runs s = runs s0"
      "data s = data s0" "resolves evs = 0" "Stop \<notin> set evs \<Longrightarrow> evs = []"
    | (run) "apiKey \<noteq> []" "data s0 \<noteq> []"
      "sole_run rw (length (runs s0)) (data s0) (startProcessing apiKey rw s0)"
      "sole_run rw (length (runs s0)) (data s0) s"
proof (cases "apiKey = [] \<or> data s0 = []")
  case True
  then have i: "startProcessing apiKey rw s0 = s0" by (rule start_early)
  from quiescent_exec [OF q ex [unfolded i] ns]
  have a: "runs s = runs s0" "data s = data s0" "resolves evs = 0"
    "Stop \<notin> set evs \<Longrightarrow> evs = []" by auto
  have "quiescent s" using q a(1) by (simp add: quiescent_def)
  with True a show ?thesis by (intro early) auto
next
  case False
  then have k: "apiKey \<noteq> []" "data s0 \<noteq> []" by auto
  note so = sole_start(1) [OF q k, of rw]
  from k so sole_exec [OF so ex ns] show ?thesis by (rule run)
qed

lemma run_done_not_awaited: "run_done c \<Longrightarrow> \<not> awaited (workers c) j"
  by (auto simp: run_done_def list_all_length awaited_def waits_def)

lemma status_settle: "status (settle rw r j row) = Completed \<or> status (settle rw r j row) = Error"
  by (simp add: settle_def write_back_def split: sum.splits)

lemma settle_Inl:
  "rw r j (mk_input row) = Inl m \<Longrightarrow> settle rw r j row = row\<lparr>status := Error, error := Some m\<rparr>"
  by (simp add: settle_def write_back_def mark_processing_def)

lemma settle_Inr:
  "rw r j (mk_input row) = Inr res \<Longrightarrow>
     settle rw r j row = row\<lparr>status := Completed, error := None,
       rewritten := Some (result_rewritten res),
       original := or_default (extractedOriginal res) (original row)\<rparr>"
  by (simp add: settle_def write_back_def mark_processing_def)

lemma status_mark_processing [simp]: "status (mark_processing row) = Processing"
  by (simp add: mark_processing_def)

lemma status_settle_neq [simp]: "status (settle rw r j row) \<noteq> Processing"
  using status_settle [of rw r j row] by auto

lemma done_data:
  assumes so: "sole_run rw r rows s" and d: "quiescent s" and j: "j < length rows"
  shows "data s ! j = (if j \<in> set (calls_from r s) then settle rw r j (rows ! j) else rows ! j)"
proof -
  from d have "run_done (runs s ! r)" by (simp add: sole_quiescent [OF so])
  from inv_data [OF sole_inv [OF so] j] run_done_not_awaited [OF this]
  show ?thesis by (simp add: sole_calls [OF so])
qed

text \<open>A complete run that was never stopped has claimed every eligible row.\<close>

lemma complete_run:
  assumes q: "quiescent s0" and key: "apiKey \<noteq> []" and ne: "data s0 \<noteq> []"
    and ex: "exec apiKey rw evs (startProcessing apiKey rw s0) = Some s"
    and ns: "Start \<notin> set evs" and nt: "Stop \<notin> set evs"
  shows "remaining (stopProcessingRef s) (runs s ! length (runs s0)) + length evs =
           length (filter eligible (data s0))"
    and "quiescent s \<Longrightarrow> calls_from (length (runs s0)) s = eligible_indices (data s0) \<and>
           length evs = length (filter eligible (data s0))"
proof -
  let ?r = "length (runs s0)"
  let ?rows = "data s0"
  let ?init = "startProcessing apiKey rw s0"
  note st = sole_start [OF q key ne, of rw]
  note so = sole_exec [OF st(1) ex ns]
  note i = sole_inv [OF so]
  note re = remaining_exec_no_stop [OF st(1) ex ns nt]
  have stop: "\<not> stopProcessingRef s" using re st(3) by simp
  have "remaining (stopProcessingRef s) (runs s ! ?r) + length evs =
      remaining (stopProcessingRef ?init) (runs ?init ! ?r)"
    using re by (rule conjunct1)
  also have "\<dots> = length (filter eligible ?rows)" using st(2,3) by simp
  finally show r: "remaining (stopProcessingRef s) (runs s ! ?r) + length evs =
      length (filter eligible ?rows)" .
  show "calls_from ?r s = eligible_indices ?rows \<and> length evs = length (filter eligible ?rows)"
    if d: "quiescent s"
  proof -
    from d have rd: "run_done (runs s ! ?r)" by (simp add: sole_quiescent [OF so])
    have nef: "no_early_finish (stopProcessingRef s) (runs s ! ?r)"
      using st(1) ex ns by (rule no_early_finish_exec) (use st(3,4) in simp)
    have len: "length (workers (runs s ! ?r)) = CONCURRENCY"
      using workers_length_exec [OF st(1) ex ns] st(5) by simp
    have it: "itemsToProcess (runs s ! ?r) = items_of ?rows" using i by (rule inv_items)
    from len have l0: "0 < length (workers (runs s ! ?r))" by (simp add: CONCURRENCY_def)
    from run_done_Finished [OF rd l0] l0
    have "\<exists>w < length (workers (runs s ! ?r)). workers (runs s ! ?r) ! w = Finished" by blast
    with nef stop have "length (itemsToProcess (runs s ! ?r)) \<le> index (runs s ! ?r)"
      by (auto simp: no_early_finish_def)
    with it inv_index [OF i] have ix: "index (runs s ! ?r) = length (items_of ?rows)" by simp
    have "length (items_of ?rows) = length (eligible_indices ?rows)"
      by (simp flip: map_snd_items_of)
    with ix inv_calls [OF i] have c: "calls (runs s ! ?r) = eligible_indices ?rows" by simp
    have "remaining (stopProcessingRef s) (runs s ! ?r) = 0"
      using ix it stop run_done_waiting [OF rd] by (simp add: remaining_def)
    with r c show ?thesis by (simp add: sole_calls [OF so])
  qed
qed



text \<open>No event changes the length of the list of rows.\<close>

lemma length_update_row [simp]: "length (update_row i f prev) = length prev"
  by (simp add: update_row_def)

lemma length_data_worker_loop: "length (data (fst (worker_loop rw r s))) = length (data s)"
  by (simp add: worker_loop_def Let_def split: prod.splits)

lemma length_data_spawn: "length (data (spawn rw r s)) = length (data s)"
  using length_data_worker_loop [of rw r s]
  by (cases "worker_loop rw r s") (auto simp: spawn_def)

lemma length_data_spawns: "length (data ((spawn rw r ^^ n) s)) = length (data s)"
  by (induction n) (simp_all add: length_data_spawn)

lemma length_data_step: "step apiKey rw ev s = Some s' \<Longrightarrow> length (data s') = length (data s)"
proof (cases ev)
  case (Resolve r w)
  assume "step apiKey rw ev s = Some s'"
  with Resolve have "resume rw r w s = Some s'" by (simp add: step_def)
  then show ?thesis
  proof (cases rule: resume_cases)
    case (1 oi res s2 x)
    from length_data_worker_loop [of rw r "s\<lparr>data := update_row oi (write_back res) (data s),
        processingStats := count_result res (processingStats s)\<rparr>"] 1(4,5)
    show ?thesis by simp
  qed
next
  case Stop
  assume "step apiKey rw ev s = Some s'"
  with Stop show ?thesis by (auto simp: step_def stopProcessing_def)
next
  case Start
  assume "step apiKey rw ev s = Some s'"
  with Start show ?thesis
    by (auto simp: step_def startProcessing_def Let_def length_data_spawns)
qed

lemma length_data_exec:
  "exec apiKey rw evs s = Some s' \<Longrightarrow> length (data s') = length (data s)"
proof (induction evs arbitrary: s)
  case Nil
  then show ?case by simp
next
  case (Cons ev evs)
  from Cons.prems obtain s1 where
    s1: "step apiKey rw ev s = Some s1" "exec apiKey rw evs s1 = Some s'"
    by (rule exec_Cons_cases)
  from Cons.IH [OF s1(2)] length_data_step [OF s1(1)] show ?case by simp
qed


text \<open>What a settled row holds, written out for the two outcomes of the call.\<close>

lemma settled_row:
  assumes "x = settle rw r j row"
  shows "(status x = Completed \<or> status x = Error) \<and>
         (\<forall>m. rw r j (mk_input row) = Inl m \<longrightarrow> x = row\<lparr>status := Error, error := Some m\<rparr>) \<and>
         (\<forall>res. rw r j (mk_input row) = Inr res \<longrightarrow>
            x = row\<lparr>status := Completed, error := None,
                  rewritten := Some (result_rewritten res),
                  original := or_default (extractedOriginal res) (original row)\<rparr>)"
  using assms status_settle [of rw r j row] by (simp add: settle_Inl settle_Inr)

text \<open>
  Claim C1, as amended. The run is started with a non-empty API key in a state in which
  no call of an earlier run is pending, and until it is complete the processing is neither
  stopped nor started again and the list is not replaced. For every list of rows of which \<open>N\<close> are eligible (status
  \<open>pending\<close> or \<open>error\<close>): the run takes at most \<open>N\<close> resolutions of pending calls; as
  long as a call is pending, a pending call can settle; and when no call is pending the run
  has taken exactly \<open>N\<close> resolutions, \<open>rewriteCaption\<close> has been invoked exactly \<open>N\<close>
  times, once for each eligible row in the order of the list, every eligible row has
  status \<open>completed\<close> with the result written to it or status \<open>error\<close> with the
  message written to it, every other row is unchanged, and a row has status \<open>processing\<close>
  only if it had it when the run started.
\<close>

theorem startProcessing_invokes_each_eligible_row_once:
  assumes "quiescent s0" and "apiKey \<noteq> []"
    and "exec apiKey rw evs (startProcessing apiKey rw s0) = Some s"
    and "Stop \<notin> set evs" and "Start \<notin> set evs"
  shows "length evs \<le> length (filter eligible (data s0)) \<and>
         (\<not> quiescent s \<longrightarrow> (\<exists>r w s'. step apiKey rw (Resolve r w) s = Some s')) \<and>
         (quiescent s \<longrightarrow>
            length evs = length (filter eligible (data s0)) \<and>
            length (calls_from (length (runs s0)) s) = length (filter eligible (data s0)) \<and>
            calls_from (length (runs s0)) s = eligible_indices (data s0) \<and>
            length (data s) = length (data s0) \<and>
            (\<forall>j < length (data s0).
               (eligible (data s0 ! j) \<longrightarrow>
                  (status (data s ! j) = Completed \<or> status (data s ! j) = Error) \<and>
                  (\<forall>m. rw (length (runs s0)) j (mk_input (data s0 ! j)) = Inl m \<longrightarrow>
                     data s ! j = (data s0 ! j)\<lparr>status := Error, error := Some m\<rparr>) \<and>
                  (\<forall>res. rw (length (runs s0)) j (mk_input (data s0 ! j)) = Inr res \<longrightarrow>
                     data s ! j =
                       (data s0 ! j)\<lparr>status := Completed, error := None,
                         rewritten := Some (result_rewritten res),
                         original := or_default (extractedOriginal res)
                           (original (data s0 ! j))\<rparr>)) \<and>
               (\<not> eligible (data s0 ! j) \<longrightarrow> data s ! j = data s0 ! j) \<and>
               (status (data s ! j) = Processing \<longrightarrow> status (data s0 ! j) = Processing)))"
proof -
  let ?r = "length (runs s0)"
  let ?rows = "data s0"
  let ?N = "length (filter eligible ?rows)"
  have p: "\<exists>r w s'. step apiKey rw (Resolve r w) s = Some s'" if "\<not> quiescent s"
    using that by (rule progress)
  from assms(1,3,5) show ?thesis
  proof (cases rule: run_state)
    case early
    with assms(2,4) have e: "data s0 = []" "evs = []" by auto
    have "calls_from ?r s = []" using early(3) by (simp add: calls_from_def)
    with e early(4) p show ?thesis by (simp add: eligible_indices_def)
  next
    case run
    note cr = complete_run [OF assms(1) run(1,2) assms(3,5,4)]
    have a: "length evs \<le> ?N" using cr(1) by simp
    have b: "length evs = ?N \<and> length (calls_from ?r s) = ?N \<and>
        calls_from ?r s = eligible_indices ?rows \<and> length (data s) = length ?rows \<and>
        (\<forall>j < length ?rows.
           (eligible (?rows ! j) \<longrightarrow>
              (status (data s ! j) = Completed \<or> status (data s ! j) = Error) \<and>
              (\<forall>m. rw ?r j (mk_input (?rows ! j)) = Inl m \<longrightarrow>
                 data s ! j = (?rows ! j)\<lparr>status := Error, error := Some m\<rparr>) \<and>
              (\<forall>res. rw ?r j (mk_input (?rows ! j)) = Inr res \<longrightarrow>
                 data s ! j =
                   (?rows ! j)\<lparr>status := Completed, error := None,
                     rewritten := Some (result_rewritten res),
                     original := or_default (extractedOriginal res) (original (?rows ! j))\<rparr>)) \<and>
           (\<not> eligible (?rows ! j) \<longrightarrow> data s ! j = ?rows ! j) \<and>
           (status (data s ! j) = Processing \<longrightarrow> status (?rows ! j) = Processing))"
      if d: "quiescent s"
    proof (intro conjI allI impI)
      from cr(2) [OF d]
      show c: "calls_from ?r s = eligible_indices ?rows" and n: "length evs = ?N" by auto
      show "length (calls_from ?r s) = ?N"
        using c length_items_of [of ?rows] by (simp flip: map_snd_items_of)
      show "length (data s) = length ?rows" using sole_inv [OF run(4)] by (rule inv_length)
      fix j assume j: "j < length ?rows"
      have m: "j \<in> set (calls_from ?r s) \<longleftrightarrow> eligible (?rows ! j)"
        using c j by (simp add: set_eligible_indices)
      have dj: "data s ! j = (if eligible (?rows ! j) then settle rw ?r j (?rows ! j)
          else ?rows ! j)"
        using done_data [OF run(4) d j] m by simp
      show "data s ! j = ?rows ! j" if "\<not> eligible (?rows ! j)" using that dj by simp
      show "status (?rows ! j) = Processing" if "status (data s ! j) = Processing"
        using that dj by (auto split: if_splits)
      assume el: "eligible (?rows ! j)"
      with dj have "data s ! j = settle rw ?r j (?rows ! j)" by simp
      note sr = settled_row [OF this]
      show "status (data s ! j) = Completed \<or> status (data s ! j) = Error"
        using sr by (rule conjunct1)
      show "\<And>m. rw ?r j (mk_input (?rows ! j)) = Inl m \<Longrightarrow>
          data s ! j = (?rows ! j)\<lparr>status := Error, error := Some m\<rparr>"
        using sr by blast
      show "\<And>res. rw ?r j (mk_input (?rows ! j)) = Inr res \<Longrightarrow>
          data s ! j = (?rows ! j)\<lparr>status := Completed, error := None,
                     rewritten := Some (result_rewritten res),
                     original := or_default (extractedOriginal res) (original (?rows ! j))\<rparr>"
        using sr by blast
    qed
    from a p b show ?thesis by blast
  qed
qed

text \<open>
  Claim C2, as amended. The run is started in a state in which no call of an earlier run
  is pending, it is stopped in the state \<open>s1\<close>, and the processing is not started again
  and the list is not replaced.
  Then no row is claimed after the stop (the log of invocations stays as it was at the
  stop), at most as many resolutions follow as calls were pending at the stop, and as long
  as a call is pending, a pending call can settle. When no call is pending any more, every
  row whose call was dispatched before the stop has status \<open>completed\<close> with the result
  written to it or status \<open>error\<close> with the message written to it, and every other row
  is as it was when the run started: an eligible row that was not claimed keeps its
  status, \<open>pending\<close> or \<open>error\<close>.
\<close>

theorem stop_settles_dispatched_and_keeps_the_rest:
  assumes "quiescent s0"
    and "exec apiKey rw evs1 (startProcessing apiKey rw s0) = Some s1"
    and "Start \<notin> set evs1"
    and "exec apiKey rw (Stop # evs2) s1 = Some s"
    and "Start \<notin> set evs2"
  shows "calls_from (length (runs s0)) s = calls_from (length (runs s0)) s1 \<and>
         resolves evs2 \<le> pending_calls s1 \<and>
         (\<not> quiescent s \<longrightarrow> (\<exists>r w s'. step apiKey rw (Resolve r w) s = Some s')) \<and>
         (quiescent s \<longrightarrow>
            (\<forall>j < length (data s0).
               (j \<in> set (calls_from (length (runs s0)) s1) \<longrightarrow>
                  (status (data s ! j) = Completed \<or> status (data s ! j) = Error) \<and>
                  (\<forall>m. rw (length (runs s0)) j (mk_input (data s0 ! j)) = Inl m \<longrightarrow>
                     data s ! j = (data s0 ! j)\<lparr>status := Error, error := Some m\<rparr>) \<and>
                  (\<forall>res. rw (length (runs s0)) j (mk_input (data s0 ! j)) = Inr res \<longrightarrow>
                     data s ! j =
                       (data s0 ! j)\<lparr>status := Completed, error := None,
                         rewritten := Some (result_rewritten res),
                         original := or_default (extractedOriginal res)
                           (original (data s0 ! j))\<rparr>)) \<and>
               (j \<notin> set (calls_from (length (runs s0)) s1) \<longrightarrow> data s ! j = data s0 ! j)))"
proof -
  let ?r = "length (runs s0)"
  let ?rows = "data s0"
  have p: "\<exists>r w s'. step apiKey rw (Resolve r w) s = Some s'" if "\<not> quiescent s"
    using that by (rule progress)
  have ns2: "Start \<notin> set (Stop # evs2)" using assms(5) by simp
  from assms(4) have ex2: "exec apiKey rw evs2 (stopProcessing s1) = Some s"
    by (simp add: step_def)
  from assms(1,2,3) show ?thesis
  proof (cases rule: run_state)
    case early
    from quiescent_exec [OF early(2) assms(4) ns2]
    have a: "runs s = runs s1" "data s = data s1" "resolves (Stop # evs2) = 0" by auto
    have c1: "calls_from ?r s1 = []" using early(3) by (simp add: calls_from_def)
    have c: "calls_from ?r s = []" using early(3) a(1) by (simp add: calls_from_def)
    have "resolves evs2 = 0" using a(3) by (simp add: resolves_def)
    with c c1 a(2) early(4) p show ?thesis by simp
  next
    case run
    note so1 = run(4)
    have sos: "sole_run rw ?r ?rows (stopProcessing s1)" using so1 by simp
    note so = sole_exec [OF sos ex2 assms(5)]
    have st: "stopProcessingRef (stopProcessing s1)" by (simp add: stopProcessing_def)
    from frozen_exec [OF sos ex2 assms(5) st]
    have "calls (runs s ! ?r) = calls (runs s1 ! ?r)" by (simp add: stopProcessing_def)
    then have c: "calls_from ?r s = calls_from ?r s1"
      by (simp add: sole_calls [OF so] sole_calls [OF so1])
    have "remaining (stopProcessingRef (stopProcessing s1)) (runs (stopProcessing s1) ! ?r) =
        pending_calls s1"
      by (simp add: remaining_def stopProcessing_def sole_pending [OF so1])
    with remaining_exec [OF sos ex2 assms(5)] have r: "resolves evs2 \<le> pending_calls s1"
      by simp
    have f: "\<forall>j < length ?rows.
        (j \<in> set (calls_from ?r s1) \<longrightarrow>
           (status (data s ! j) = Completed \<or> status (data s ! j) = Error) \<and>
           (\<forall>m. rw ?r j (mk_input (?rows ! j)) = Inl m \<longrightarrow>
              data s ! j = (?rows ! j)\<lparr>status := Error, error := Some m\<rparr>) \<and>
           (\<forall>res. rw ?r j (mk_input (?rows ! j)) = Inr res \<longrightarrow>
              data s ! j =
                (?rows ! j)\<lparr>status := Completed, error := None,
                  rewritten := Some (result_rewritten res),
                  original := or_default (extractedOriginal res) (original (?rows ! j))\<rparr>)) \<and>
        (j \<notin> set (calls_from ?r s1) \<longrightarrow> data s ! j = ?rows ! j)" if d: "quiescent s"
    proof (intro allI impI conjI)
      fix j assume j: "j < length ?rows"
      from done_data [OF so d j] c
      have dj: "data s ! j = (if j \<in> set (calls_from ?r s1) then settle rw ?r j (?rows ! j)
          else ?rows ! j)"
        by simp
      show "data s ! j = ?rows ! j" if "j \<notin> set (calls_from ?r s1)" using that dj by simp
      assume "j \<in> set (calls_from ?r s1)"
      with dj have "data s ! j = settle rw ?r j (?rows ! j)" by simp
      note sr = settled_row [OF this]
      show "status (data s ! j) = Completed \<or> status (data s ! j) = Error"
        using sr by (rule conjunct1)
      show "\<And>m. rw ?r j (mk_input (?rows ! j)) = Inl m \<Longrightarrow>
          data s ! j = (?rows ! j)\<lparr>status := Error, error := Some m\<rparr>"
        using sr by blast
      show "\<And>res. rw ?r j (mk_input (?rows ! j)) = Inr res \<Longrightarrow>
          data s ! j = (?rows ! j)\<lparr>status := Completed, error := None,
                     rewritten := Some (result_rewritten res),
                     original := or_default (extractedOriginal res) (original (?rows ! j))\<rparr>"
        using sr by blast
    qed
    from c r p f show ?thesis by blast
  qed
qed



lemma case_option_SomeE: "(case x of None \<Rightarrow> False | Some s \<Rightarrow> P s) \<Longrightarrow> \<exists>s. x = Some s \<and> P s"
  by (cases x) auto

lemma quiescent_idle: "quiescent (idle rows st)"
  by (simp add: quiescent_def idle_def)

lemma example_key: "js ''k'' \<noteq> []"
  by (simp add: js_def)

lemma example_run:
  "case exec (js ''k'') example_rw [Resolve 0 0, Resolve 0 1, Resolve 0 2, Resolve 0 0]
     (startProcessing (js ''k'') example_rw
        (idle [example_row Pending, example_row Completed, example_row Error,
               example_row Pending, example_row Pending]
           \<lparr>total = 5, completed = 1, failed = 1\<rparr>))
   of None \<Rightarrow> False
    | Some s \<Rightarrow> quiescent s \<and>
        map status (data s) = [Completed, Completed, Error, Completed, Completed]"
  by code_simp

lemma example_eligible:
  "eligible_indices [example_row Pending, example_row Completed, example_row Error,
               example_row Pending, example_row Pending] = [0, 2, 3, 4]"
  by code_simp

text \<open>Five rows, four of them eligible, and the run in which worker 0 takes the fifth:
  row 0 holds the result of its call, row 2 the message of its failed call.\<close>

theorem startProcessing_invokes_each_eligible_row_once_witness:
  "\<exists>s. exec (js ''k'') example_rw [Resolve 0 0, Resolve 0 1, Resolve 0 2, Resolve 0 0]
     (startProcessing (js ''k'') example_rw
        (idle [example_row Pending, example_row Completed, example_row Error,
               example_row Pending, example_row Pending]
           \<lparr>total = 5, completed = 1, failed = 1\<rparr>)) = Some s \<and>
     quiescent s \<and> calls_from 0 s = [0, 2, 3, 4] \<and>
     map status (data s) = [Completed, Completed, Error, Completed, Completed] \<and>
     rewritten (data s ! 0) = Some (js ''b'') \<and>
     error (data s ! 2) = Some (js ''boom'')"
proof -
  let ?rows = "[example_row Pending, example_row Completed, example_row Error,
               example_row Pending, example_row Pending]"
  let ?st = "\<lparr>total = 5, completed = 1, failed = 1\<rparr>"
  let ?s0 = "idle ?rows ?st"
  let ?evs = "[Resolve 0 0, Resolve 0 1, Resolve 0 2, Resolve 0 0]"
  from case_option_SomeE [OF example_run] obtain s where
    e: "exec (js ''k'') example_rw ?evs (startProcessing (js ''k'') example_rw ?s0) = Some s \<and>
      (quiescent s \<and> map status (data s) = [Completed, Completed, Error, Completed, Completed])"
    ..
  note ex = e [THEN conjunct1] and d = e [THEN conjunct2, THEN conjunct1]
    and m = e [THEN conjunct2, THEN conjunct2]
  have ns: "Stop \<notin> set ?evs" and nt: "Start \<notin> set ?evs" by simp_all
  note t = startProcessing_invokes_each_eligible_row_once
    [OF quiescent_idle example_key ex ns nt]
  note u = t [THEN conjunct2, THEN conjunct2, THEN mp, OF d]
  have "calls_from (length (runs ?s0)) s = eligible_indices (data ?s0)"
    by (rule u [THEN conjunct2, THEN conjunct2, THEN conjunct1])
  then have c: "calls_from 0 s = [0, 2, 3, 4]" by (simp add: idle_def example_eligible)
  note a = u [THEN conjunct2, THEN conjunct2, THEN conjunct2, THEN conjunct2]
  have l0: "0 < length (data ?s0)" and l2: "2 < length (data ?s0)"
    by (simp_all add: idle_def)
  have e0: "eligible (data ?s0 ! 0)" and e2: "eligible (data ?s0 ! 2)"
    by (simp_all add: idle_def eligible_def example_row_def)
  have w0: "example_rw (length (runs ?s0)) 0 (mk_input (data ?s0 ! 0)) =
      Inr \<lparr>result_rewritten = js ''b'', extractedOriginal = None\<rparr>"
    by (simp add: example_rw_def)
  have w2: "example_rw (length (runs ?s0)) 2 (mk_input (data ?s0 ! 2)) = Inl (js ''boom'')"
    by (simp add: example_rw_def)
  note r0 = a [THEN spec, of 0, THEN mp, OF l0, THEN conjunct1, THEN mp, OF e0,
      THEN conjunct2, THEN conjunct2, THEN spec, THEN mp, OF w0]
  note r2 = a [THEN spec, of 2, THEN mp, OF l2, THEN conjunct1, THEN mp, OF e2,
      THEN conjunct2, THEN conjunct1, THEN spec, THEN mp, OF w2]
  have q0: "rewritten (data s ! 0) = Some (js ''b'')" by (simp add: r0)
  have q2: "error (data s ! 2) = Some (js ''boom'')" by (simp add: r2)
  show ?thesis by (intro exI conjI) (rule ex d c m q0 q2)+
qed

text \<open>
  The claim as stated fails on a list that holds a row already in status
  \<open>processing\<close> (a session saved and loaded in the middle of a run holds such rows): the
  run does not take the row, and the row is still \<open>processing\<close> when the run is complete.
  It also fails when the run is started while calls of a stopped run are pending: after
  the stop the start button is offered again, the list then holds two eligible rows, rows
  3 and 4, and when all calls have settled \<open>rewriteCaption\<close> has been invoked for them
  four times, twice by the new run and twice by the workers of the stopped run, which the
  start has released.
\<close>

theorem startProcessing_leaves_processing_row_counterexample:
  "(case exec (js ''k'') example_rw []
      (startProcessing (js ''k'') example_rw
         (idle [example_row Processing] \<lparr>total = 1, completed = 0, failed = 0\<rparr>))
    of None \<Rightarrow> False
     | Some s \<Rightarrow> quiescent s \<and> calls_from 0 s = [] \<and>
         length (filter eligible [example_row Processing]) = 0 \<and>
         map status (data s) = [Processing]) \<and>
   (case exec (js ''k'') example_rw [Start, Stop]
      (idle [example_row Pending, example_row Pending, example_row Pending,
             example_row Pending, example_row Error]
         \<lparr>total = 5, completed = 0, failed = 1\<rparr>)
    of None \<Rightarrow> False
     | Some t \<Rightarrow> isProcessing t = False \<and> length (filter eligible (data t)) = 2 \<and>
         map calls (runs t) = [[0, 1, 2]] \<and>
         (case exec (js ''k'') example_rw
            [Start, Resolve 1 0, Resolve 0 0, Resolve 0 1, Resolve 0 2, Resolve 1 1,
             Resolve 0 0, Resolve 0 1] t
          of None \<Rightarrow> False
           | Some s \<Rightarrow> quiescent s \<and> map calls (runs s) = [[0, 1, 2, 3, 4], [3, 4]]))"
  by code_simp

lemma stopped_example_run:
  "case exec (js ''k'') example_rw [Stop, Resolve 0 2, Resolve 0 0, Resolve 0 1]
     (startProcessing (js ''k'') example_rw
        (idle [example_row Pending, example_row Pending, example_row Pending,
               example_row Pending, example_row Error]
           \<lparr>total = 5, completed = 0, failed = 1\<rparr>))
   of None \<Rightarrow> False
    | Some s \<Rightarrow> quiescent s \<and>
        map status (data s) = [Completed, Completed, Error, Pending, Error]"
  by code_simp

lemma stopped_example_calls:
  "calls_from 0 (startProcessing (js ''k'') example_rw
        (idle [example_row Pending, example_row Pending, example_row Pending,
               example_row Pending, example_row Error]
           \<lparr>total = 5, completed = 0, failed = 1\<rparr>)) = [0, 1, 2]"
  by code_simp

text \<open>Five eligible rows; the run is stopped as soon as the three workers have claimed
  the first three. Row 0 holds the result of its call, row 2 the message of its failed
  call, rows 3 and 4 are as they were.\<close>

theorem stop_settles_dispatched_and_keeps_the_rest_witness:
  "\<exists>s. exec (js ''k'') example_rw [Stop, Resolve 0 2, Resolve 0 0, Resolve 0 1]
     (startProcessing (js ''k'') example_rw
        (idle [example_row Pending, example_row Pending, example_row Pending,
               example_row Pending, example_row Error]
           \<lparr>total = 5, completed = 0, failed = 1\<rparr>)) = Some s \<and>
     quiescent s \<and> calls_from 0 s = [0, 1, 2] \<and>
     status (data s ! 0) = Completed \<and> rewritten (data s ! 0) = Some (js ''b'') \<and>
     status (data s ! 2) = Error \<and> error (data s ! 2) = Some (js ''boom'') \<and>
     data s ! 3 = example_row Pending \<and>
     data s ! 4 = example_row Error"
proof -
  let ?rows = "[example_row Pending, example_row Pending, example_row Pending,
               example_row Pending, example_row Error]"
  let ?st = "\<lparr>total = 5, completed = 0, failed = 1\<rparr>"
  let ?s0 = "idle ?rows ?st"
  let ?init = "startProcessing (js ''k'') example_rw ?s0"
  let ?evs = "[Resolve 0 2, Resolve 0 0, Resolve 0 1]"
  from case_option_SomeE [OF stopped_example_run] obtain s where
    e: "exec (js ''k'') example_rw (Stop # ?evs) ?init = Some s \<and>
      (quiescent s \<and> map status (data s) = [Completed, Completed, Error, Pending, Error])"
    ..
  note ex = e [THEN conjunct1] and d = e [THEN conjunct2, THEN conjunct1]
  have e0: "exec (js ''k'') example_rw [] ?init = Some ?init" by (rule exec.simps(1))
  have n1: "Start \<notin> set []" and n2: "Start \<notin> set ?evs" by simp_all
  note t = stop_settles_dispatched_and_keeps_the_rest [OF quiescent_idle e0 n1 ex n2]
  have r: "length (runs ?s0) = 0" by (simp add: idle_def)
  have "calls_from (length (runs ?s0)) s = calls_from (length (runs ?s0)) ?init"
    by (rule t [THEN conjunct1])
  then have c: "calls_from 0 s = [0, 1, 2]"
    by (simp only: r stopped_example_calls)
  note a = t [THEN conjunct2, THEN conjunct2, THEN conjunct2, THEN mp, OF d]
  have l0: "0 < length (data ?s0)" and l2: "2 < length (data ?s0)"
    and l3: "3 < length (data ?s0)" and l4: "4 < length (data ?s0)"
    by (simp_all add: idle_def)
  have m0: "0 \<in> set (calls_from (length (runs ?s0)) ?init)"
    and m2: "2 \<in> set (calls_from (length (runs ?s0)) ?init)"
    and n3: "3 \<notin> set (calls_from (length (runs ?s0)) ?init)"
    and n4: "4 \<notin> set (calls_from (length (runs ?s0)) ?init)"
    unfolding r stopped_example_calls by simp_all
  have w0: "example_rw (length (runs ?s0)) 0 (mk_input (data ?s0 ! 0)) =
      Inr \<lparr>result_rewritten = js ''b'', extractedOriginal = None\<rparr>"
    by (simp add: example_rw_def)
  have w2: "example_rw (length (runs ?s0)) 2 (mk_input (data ?s0 ! 2)) = Inl (js ''boom'')"
    by (simp add: example_rw_def)
  note r0 = a [THEN spec, of 0, THEN mp, OF l0, THEN conjunct1, THEN mp, OF m0,
      THEN conjunct2, THEN conjunct2, THEN spec, THEN mp, OF w0]
  note r2 = a [THEN spec, of 2, THEN mp, OF l2, THEN conjunct1, THEN mp, OF m2,
      THEN conjunct2, THEN conjunct1, THEN spec, THEN mp, OF w2]
  have r3: "data s ! 3 = data ?s0 ! 3"
    by (rule a [THEN spec, of 3, THEN mp, OF l3, THEN conjunct2, THEN mp, OF n3])
  have r4: "data s ! 4 = data ?s0 ! 4"
    by (rule a [THEN spec, of 4, THEN mp, OF l4, THEN conjunct2, THEN mp, OF n4])
  have q0: "status (data s ! 0) = Completed" and q0': "rewritten (data s ! 0) = Some (js ''b'')"
    by (simp_all add: r0)
  have q2: "status (data s ! 2) = Error" and q2': "error (data s ! 2) = Some (js ''boom'')"
    by (simp_all add: r2)
  have q3: "data s ! 3 = example_row Pending" using r3 by (simp add: idle_def)
  have q4: "data s ! 4 = example_row Error" using r4 by (simp add: idle_def)
  show ?thesis by (intro exI conjI) (rule ex d c q0 q0' q2 q2' q3 q4)+
qed

text \<open>
  The claim as stated fails for an eligible row with status \<open>error\<close>: row 4 has not been
  claimed when the run is stopped, and when all calls have settled its status is
  \<open>error\<close>, as it was, not \<open>pending\<close>. It also fails when the processing is started
  again while the dispatched calls are pending: rows 3 and 4 have not been claimed when
  the run is stopped, the start resets the stop flag, and the workers of the stopped run
  claim rows 3 and 4 when their calls settle, so that the stopped run has invoked
  \<open>rewriteCaption\<close> for all five rows.
\<close>

theorem stop_keeps_error_row_counterexample:
  "(case exec (js ''k'') example_rw [Stop, Resolve 0 2, Resolve 0 0, Resolve 0 1]
      (startProcessing (js ''k'') example_rw
         (idle [example_row Pending, example_row Pending, example_row Pending,
                example_row Pending, example_row Error]
            \<lparr>total = 5, completed = 0, failed = 1\<rparr>))
    of None \<Rightarrow> False
     | Some s \<Rightarrow> quiescent s \<and> calls_from 0 s = [0, 1, 2] \<and> status (data s ! 4) = Error \<and>
         status (data s ! 4) \<noteq> Pending) \<and>
   (case exec (js ''k'') example_rw [Start, Stop]
      (idle [example_row Pending, example_row Pending, example_row Pending,
             example_row Pending, example_row Error]
         \<lparr>total = 5, completed = 0, failed = 1\<rparr>)
    of None \<Rightarrow> False
     | Some t \<Rightarrow> isProcessing t = False \<and> stopProcessingRef t = True \<and>
         calls (runs t ! 0) = [0, 1, 2] \<and>
         (case exec (js ''k'') example_rw
            [Start, Resolve 1 0, Resolve 0 0, Resolve 0 1, Resolve 0 2, Resolve 1 1,
             Resolve 0 0, Resolve 0 1] t
          of None \<Rightarrow> False
           | Some s \<Rightarrow> quiescent s \<and> calls (runs s ! 0) = [0, 1, 2, 3, 4] \<and>
               map status (data s) = [Completed, Completed, Error, Completed, Completed]))"
  by code_simp




section \<open>Properties of the spreadsheet import\<close>

lemmas import_eval = js_def toLowerCase_def is_caption_key_def is_image_key_def captionKey_def
  caption_text_def image_path_def is_space_def trim_def import_row_def processedData_def
  handleExcelUpload_def cell_truthy_def String_of_def idle_def

lemma processedData_pending:
  "r \<in> set (processedData uuidv4 jsonData) \<Longrightarrow>
     status r = Pending \<and> rewritten r = None \<and> imageData r = None \<and> error r = None"
  by (auto simp: processedData_def import_row_def)

lemma map_snd_case: "map (\<lambda>(i, row). f row) ps = map f (map snd ps)"
  by (induction ps) auto

lemma map_original_processedData:
  "map original (processedData uuidv4 jsonData) =
     filter (\<lambda>s. s \<noteq> [] \<and> trim s \<noteq> []) (map caption_text jsonData)"
proof -
  have "map original (processedData uuidv4 jsonData) =
        filter (\<lambda>s. s \<noteq> [] \<and> trim s \<noteq> [])
          (map (\<lambda>(i, row). caption_text row) (enumerate 0 jsonData))"
    by (simp add: processedData_def filter_map comp_def import_row_def case_prod_unfold)
  also have "map (\<lambda>(i, row). caption_text row) (enumerate 0 jsonData) =
        map caption_text (map snd (enumerate 0 jsonData))"
    by (rule map_snd_case)
  also have "map snd (enumerate 0 jsonData) = jsonData"
    by (rule map_snd_enumerate)
  finally show ?thesis .
qed

text \<open>
  When every row object holds the caption column \<open>k\<close> as its first caption-like key,
  with a string in it, the import keeps the rows whose caption is not blank, in their
  order, with the cell text as \<open>original\<close>.
\<close>

lemma import_dense_sheet:
  assumes "\<forall>row \<in> set jsonData.
             find is_caption_key (map fst row) = Some k \<and> map_of row k = Some (CStr (val row))"
  shows "map original (processedData uuidv4 jsonData) =
           filter (\<lambda>s. s \<noteq> [] \<and> trim s \<noteq> []) (map val jsonData)"
proof -
  have "caption_text row = val row" if "row \<in> set jsonData" for row
    using assms that by (auto simp: caption_text_def captionKey_def cell_truthy_def String_of_def)
  then have "map caption_text jsonData = map val jsonData"
    by (intro map_cong) auto
  then show ?thesis by (simp only: map_original_processedData)
qed

text \<open>
  Claim C4 fails on the code. A sheet with the columns \<open>ID\<close> and \<open>Caption\<close> whose second
  data row has an empty caption cell is parsed into a second object without the key
  \<open>Caption\<close>. The key search is made per row, finds no caption-like key in that object
  and falls back to its first key, so the row is imported with its \<open>ID\<close> as caption:
  two rows are produced where the sheet has one non-empty caption.
\<close>

theorem handleExcelUpload_takes_id_of_row_without_caption:
  "map original (data (handleExcelUpload (\<lambda>i. [i])
      (Parsed [[(js ''ID'', CStr (js ''A1'')), (js ''Caption'', CStr (js ''hello''))],
               [(js ''ID'', CStr (js ''A2''))]])
      (idle [] \<lparr>total = 0, completed = 0, failed = 0\<rparr>))) = [js ''hello'', js ''A2'']"
  by (simp add: import_eval)


section \<open>Properties of the diff display and export\<close>

lemmas extract_eval = extractRewrittenText_def js_def markers_def after_marker_def is_space_def
  trim_def upper_ascii_def

lemma alternating_same_kind:
  assumes "alternating ps" and "\<forall>p \<in> set ps. added p \<and> \<not> removed p"
  shows "length ps \<le> 1"
proof (cases ps)
  case Nil
  then show ?thesis by simp
next
  case (Cons p qs)
  show ?thesis
  proof (cases qs)
    case Nil
    with Cons show ?thesis by simp
  next
    case (Cons q rs)
    with \<open>ps = p # qs\<close> assms show ?thesis by auto
  qed
qed

lemma concat_empty_values:
  assumes "concat (map part_value ps) = []" and "\<forall>p \<in> set ps. part_value p \<noteq> []"
  shows "ps = []"
  using assms by (cases ps) auto

text \<open>A diff of the empty string with a non-empty one is a single addition.\<close>

lemma diff_of_empty_old:
  assumes c: "diff_contract [] new parts" and n: "new \<noteq> []"
  shows "parts = [\<lparr>part_value = new, added = True, removed = False\<rparr>]"
proof -
  from c have ne: "\<forall>p \<in> set parts. part_value p \<noteq> [] \<and> \<not> (added p \<and> removed p)"
    and alt: "alternating parts"
    and old: "concat (map part_value (filter (\<lambda>p. \<not> added p) parts)) = []"
    and new: "concat (map part_value (filter (\<lambda>p. \<not> removed p) parts)) = new"
    by (simp_all add: diff_contract_def list_all_iff)
  have "filter (\<lambda>p. \<not> added p) parts = []"
    using old ne by (intro concat_empty_values) auto
  then have ad: "\<forall>p \<in> set parts. added p" by (auto simp: filter_empty_conv)
  with ne have k: "\<forall>p \<in> set parts. added p \<and> \<not> removed p" by auto
  then have f: "filter (\<lambda>p. \<not> removed p) parts = parts" by (auto simp: filter_id_conv)
  from alternating_same_kind [OF alt k] have "length parts \<le> 1" .
  moreover from new f n have "parts \<noteq> []" by auto
  ultimately obtain p where p: "parts = [p]"
    by (cases parts) auto
  with new f have "part_value p = new" by simp
  moreover from k p have "added p" "\<not> removed p" by auto
  ultimately have "p = \<lparr>part_value = new, added = True, removed = False\<rparr>" by simp
  with p show ?thesis by simp
qed

lemma foldr_join_added:
  "ys \<noteq> [] \<Longrightarrow> foldr join_unit (map (Pair Added) ys) [] =
     [\<lparr>part_value = ys, added = True, removed = False\<rparr>]"
proof (induction ys)
  case Nil
  then show ?case by simp
next
  case (Cons y ys)
  then show ?case
    by (cases "ys = []") (simp_all add: mk_change_def kind_of_def)
qed

lemma diffChars_model_empty_old:
  "new \<noteq> [] \<Longrightarrow> diffChars_model [] new = [\<lparr>part_value = new, added = True, removed = False\<rparr>]"
  by (simp add: diffChars_model_def foldr_join_added)

lemma diffChars_model_contract_empty_old:
  "new \<noteq> [] \<Longrightarrow> diff_contract [] new (diffChars_model [] new)"
  by (simp add: diffChars_model_empty_old diff_contract_def)

lemma extractRewrittenText_no_marker:
  "regex_match rewr = None \<Longrightarrow> extractRewrittenText (Some rewr) = rewr"
  by (simp add: extractRewrittenText_def)

text \<open>
  Claim C8, as amended. Both the display and the export diff the original with the
  cleaned rewritten text, \<open>extractRewrittenText\<close> of the rewritten string, which is the
  rewritten string itself when it holds no marker. For an empty original and a rewritten
  string whose cleaned text is not empty, and a diff of the two that meets the contract
  of the library: the diff is a single part, an addition that holds the whole cleaned
  text and is not flagged removed; the rewritten view shows it as one highlighted span
  and the original view shows nothing; in the exported sheet the rewritten cell is one
  green bold run with the whole cleaned text and the original cell has no run and no
  value.
\<close>

theorem diff_of_empty_original_is_one_addition:
  assumes "diff_contract [] (extractRewrittenText (Some rewr))
             (diffChars [] (extractRewrittenText (Some rewr)))"
    and "extractRewrittenText (Some rewr) \<noteq> []"
    and "item_Original item = []" and "item_Rewritten item = rewr"
  shows "diffChars [] (extractRewrittenText (Some rewr)) =
           [\<lparr>part_value = extractRewrittenText (Some rewr), added = True, removed = False\<rparr>] \<and>
         DiffView diffChars [] rewr RewrittenView =
           [Highlight (extractRewrittenText (Some rewr))] \<and>
         DiffView diffChars [] rewr OriginalView = [] \<and>
         exportToCSV diffChars [item] =
           [map Text header_row,
            [Text (item_ID item), NoValue,
             RichText [(extractRewrittenText (Some rewr), Some GreenBold)],
             Text (item_ImagePath item), Text (item_Status item), Text (item_Error item)]] \<and>
         (regex_match rewr = None \<longrightarrow> extractRewrittenText (Some rewr) = rewr)"
proof -
  note d = diff_of_empty_old [OF assms(1,2)]
  have v1: "DiffView diffChars [] rewr RewrittenView =
      [Highlight (extractRewrittenText (Some rewr))]"
    by (simp add: DiffView_def Let_def d List.map_filter_simps)
  have v2: "DiffView diffChars [] rewr OriginalView = []"
    by (simp add: DiffView_def Let_def d List.map_filter_simps)
  have e: "exportToCSV diffChars [item] =
      [map Text header_row,
       [Text (item_ID item), NoValue,
        RichText [(extractRewrittenText (Some rewr), Some GreenBold)],
        Text (item_ImagePath item), Text (item_Status item), Text (item_Error item)]]"
    using assms(3,4)
    by (simp add: exportToCSV_def export_row_def Let_def d originalRuns_def rewrittenRuns_def
        rich_cell_def List.map_filter_simps)
  from d v1 v2 e extractRewrittenText_no_marker [of rewr] show ?thesis by blast
qed

text \<open>The rewritten string \<open>a cat\<close> against an empty original, with the model of the
  library.\<close>

theorem diff_of_empty_original_is_one_addition_witness:
  "DiffView diffChars_model [] (js ''a cat'') RewrittenView = [Highlight (js ''a cat'')] \<and>
   DiffView diffChars_model [] (js ''a cat'') OriginalView = [] \<and>
   exportToCSV diffChars_model
     [\<lparr>item_ID = js ''1'', item_Original = [], item_Rewritten = js ''a cat'',
       item_ImagePath = [], item_Status = js ''completed'', item_Error = []\<rparr>] =
     [map Text header_row,
      [Text (js ''1''), NoValue, RichText [(js ''a cat'', Some GreenBold)],
       Text [], Text (js ''completed''), Text []]]"
proof -
  let ?item = "\<lparr>item_ID = js ''1'', item_Original = [], item_Rewritten = js ''a cat'',
       item_ImagePath = [], item_Status = js ''completed'', item_Error = []\<rparr>"
  have x: "extractRewrittenText (Some (js ''a cat'')) = js ''a cat''"
    by (simp add: extract_eval)
  have n: "js ''a cat'' \<noteq> []" by (simp add: js_def)
  have c: "diff_contract [] (extractRewrittenText (Some (js ''a cat'')))
      (diffChars_model [] (extractRewrittenText (Some (js ''a cat''))))"
    unfolding x using n by (rule diffChars_model_contract_empty_old)
  have n': "extractRewrittenText (Some (js ''a cat'')) \<noteq> []" unfolding x by (rule n)
  have o: "item_Original ?item = []" and r: "item_Rewritten ?item = js ''a cat''" by simp_all
  note t = diff_of_empty_original_is_one_addition
    [where diffChars = diffChars_model and rewr = "js ''a cat''" and item = ?item, OF c n' o r]
  note t1 = t [THEN conjunct2, THEN conjunct1, unfolded x]
    and t2 = t [THEN conjunct2, THEN conjunct2, THEN conjunct1]
    and t3 = t [THEN conjunct2, THEN conjunct2, THEN conjunct2, THEN conjunct1, unfolded x]
  have t3': "exportToCSV diffChars_model [?item] =
     [map Text header_row,
      [Text (js ''1''), NoValue, RichText [(js ''a cat'', Some GreenBold)],
       Text [], Text (js ''completed''), Text []]]"
    using t3 by simp
  show ?thesis by (intro conjI) (rule t1 t2 t3')+
qed

text \<open>
  The claim as stated fails for a rewritten string that holds a marker: of
  \<open>Final Caption: x\<close> only \<open>x\<close> is diffed and marked as the addition, not the entire
  rewritten string. And when nothing but white space follows the marker the cleaned text
  is empty and nothing at all is marked, although the rewritten string is not empty.
\<close>

theorem diff_marks_cleaned_text_only_counterexample:
  "DiffView diffChars_model [] (js ''Final Caption: x'') RewrittenView = [Highlight (js ''x'')] \<and>
   js ''x'' \<noteq> js ''Final Caption: x'' \<and>
   js ''Final Caption:  '' \<noteq> [] \<and>
   DiffView diffChars_model [] (js ''Final Caption:  '') RewrittenView = []"
proof -
  have x: "extractRewrittenText (Some (js ''Final Caption: x'')) = js ''x''"
    by (simp add: extract_eval)
  have y: "extractRewrittenText (Some (js ''Final Caption:  '')) = []"
    by (simp add: extract_eval)
  have n: "js ''x'' \<noteq> []" by (simp add: js_def)
  have a: "DiffView diffChars_model [] (js ''Final Caption: x'') RewrittenView =
      [Highlight (js ''x'')]"
    by (simp add: DiffView_def Let_def x diffChars_model_empty_old [OF n] List.map_filter_simps)
  have b: "DiffView diffChars_model [] (js ''Final Caption:  '') RewrittenView = []"
    by (simp add: DiffView_def Let_def y diffChars_model_def List.map_filter_simps)
  have c: "js ''x'' \<noteq> js ''Final Caption: x''" and d: "js ''Final Caption:  '' \<noteq> []"
    by (simp_all add: js_def)
  from a c d b show ?thesis by blast
qed


section \<open>Export followed by import\<close>

lemma header_keys:
  "\<not> is_caption_key (js ''ID'')" "is_caption_key (js ''Original Caption (Diff)'')"
  "\<not> is_image_key (js ''ID'')" "\<not> is_image_key (js ''Original Caption (Diff)'')"
  "\<not> is_image_key (js ''Rewritten Caption (Diff)'')" "is_image_key (js ''Image Path'')"
  by (simp_all add: js_def toLowerCase_def is_caption_key_def is_image_key_def)

lemma header_distinct:
  "js ''ID'' \<noteq> js ''Original Caption (Diff)''" "js ''ID'' \<noteq> js ''Image Path''"
  "js ''Original Caption (Diff)'' \<noteq> js ''ID''" "js ''Image Path'' \<noteq> js ''ID''"
  "js ''Original Caption (Diff)'' \<noteq> js ''Image Path''"
  "js ''Image Path'' \<noteq> js ''Original Caption (Diff)''"
  "js ''Rewritten Caption (Diff)'' \<noteq> js ''Image Path''"
  "js ''Image Path'' \<noteq> js ''Rewritten Caption (Diff)''"
  "js ''Rewritten Caption (Diff)'' \<noteq> js ''Original Caption (Diff)''"
  "js ''Original Caption (Diff)'' \<noteq> js ''Rewritten Caption (Diff)''"
  "js ''Image Path'' \<noteq> []"
  by (simp_all add: js_def)

lemma map_fst_originalRuns:
  "map fst (originalRuns diff) = map part_value (filter (\<lambda>p. \<not> added p) diff)"
  by (induction diff) (simp_all add: originalRuns_def List.map_filter_simps)

lemma original_cell:
  assumes "diff_contract old new diff" and "old \<noteq> []"
  shows "cell_text keep_empty (rich_cell (originalRuns diff)) = Some old"
proof -
  from assms(1) have c: "concat (map fst (originalRuns diff)) = old"
    by (simp add: diff_contract_def map_fst_originalRuns)
  with assms(2) have "originalRuns diff \<noteq> []" by auto
  with c show ?thesis by (simp add: rich_cell_def cell_text_def)
qed


lemma rewritten_cell_cases:
  "cell_text keep_empty (rich_cell rs) = None \<or>
   (\<exists>t. cell_text keep_empty (rich_cell rs) = Some t)"
  by (cases "cell_text keep_empty (rich_cell rs)") auto

lemma text_cell_cases:
  "cell_text keep_empty (Text s) = None \<or> cell_text keep_empty (Text s) = Some s"
  by (simp add: cell_text_def)

lemma status_text_neq: "status_text st \<noteq> []"
  by (cases st) (simp_all add: status_text_def js_def)

text \<open>The row object the import receives for an exported row with a caption and an image
  path.\<close>

lemma exported_row:
  assumes c: "diff_contract (item_Original item) (extractRewrittenText (Some (item_Rewritten item)))
      (diffChars (item_Original item) (extractRewrittenText (Some (item_Rewritten item))))"
    and o: "item_Original item \<noteq> []" and p: "item_ImagePath item \<noteq> []"
    and st: "item_Status item \<noteq> []"
  shows "caption_text (sheet_row keep_empty header_row (export_row diffChars item)) =
           item_Original item \<and>
         image_path (sheet_row keep_empty header_row (export_row diffChars item)) =
           Some (item_ImagePath item) \<and>
         sheet_row keep_empty header_row (export_row diffChars item) \<noteq> []"
proof -
  let ?diff = "diffChars (item_Original item) (extractRewrittenText (Some (item_Rewritten item)))"
  note oc = original_cell [OF c o, of keep_empty]
  have pc: "cell_text keep_empty (Text (item_ImagePath item)) = Some (item_ImagePath item)"
    using p by (simp add: cell_text_def)
  have sc: "cell_text keep_empty (Text (item_Status item)) = Some (item_Status item)"
    using st by (simp add: cell_text_def)
  from text_cell_cases [of keep_empty "item_ID item"]
    rewritten_cell_cases [of keep_empty "rewrittenRuns ?diff"]
    text_cell_cases [of keep_empty "item_Error item"]
  show ?thesis
    by (elim disjE exE)
      (simp_all add: sheet_row_def export_row_def header_row_def Let_def List.map_filter_simps
        oc pc sc caption_text_def captionKey_def image_path_def header_keys header_distinct
        cell_truthy_def String_of_def o)
qed


lemma processedData_all:
  assumes "\<forall>row \<in> set jsonData. caption_text row \<noteq> [] \<and> trim (caption_text row) \<noteq> []"
  shows "processedData uuidv4 jsonData =
           map (\<lambda>(i, row). import_row (uuidv4 i) row) (enumerate 0 jsonData)"
proof -
  have "\<forall>x \<in> set (enumerate 0 jsonData).
      original (case x of (i, row) \<Rightarrow> import_row (uuidv4 i) row) \<noteq> [] \<and>
      trim (original (case x of (i, row) \<Rightarrow> import_row (uuidv4 i) row)) \<noteq> []"
    using assms by (auto simp: in_set_enumerate_eq import_row_def)
  then show ?thesis by (simp add: processedData_def filter_map comp_def)
qed

lemma map_field_import:
  "map f (map (\<lambda>(i, row). import_row (uuidv4 i) row) (enumerate 0 jsonData)) =
     map (\<lambda>(i, row). f (import_row (uuidv4 i) row)) (enumerate 0 jsonData)"
  by (simp add: case_prod_unfold)

lemma imported_fields:
  assumes "\<forall>row \<in> set jsonData. caption_text row \<noteq> [] \<and> trim (caption_text row) \<noteq> []"
  shows "map original (processedData uuidv4 jsonData) = map caption_text jsonData"
    and "map imagePath (processedData uuidv4 jsonData) = map image_path jsonData"
    and "map status (processedData uuidv4 jsonData) = map (\<lambda>row. Pending) jsonData"
    and "map rewritten (processedData uuidv4 jsonData) = map (\<lambda>row. None) jsonData"
proof -
  note a = processedData_all [OF assms, of uuidv4]
  have e: "map snd (enumerate 0 jsonData) = jsonData" by (rule map_snd_enumerate)
  show "map original (processedData uuidv4 jsonData) = map caption_text jsonData"
    unfolding a map_field_import
    using map_snd_case [of caption_text "enumerate 0 jsonData"] e
    by (simp add: import_row_def)
  show "map imagePath (processedData uuidv4 jsonData) = map image_path jsonData"
    unfolding a map_field_import
    using map_snd_case [of image_path "enumerate 0 jsonData"] e
    by (simp add: import_row_def)
  show "map status (processedData uuidv4 jsonData) = map (\<lambda>row. Pending) jsonData"
    unfolding a map_field_import
    using map_snd_case [of "\<lambda>row. Pending" "enumerate 0 jsonData"] e
    by (simp add: import_row_def)
  show "map rewritten (processedData uuidv4 jsonData) = map (\<lambda>row. None) jsonData"
    unfolding a map_field_import
    using map_snd_case [of "\<lambda>row. None" "enumerate 0 jsonData"] e
    by (simp add: import_row_def)
qed

lemma header_read_back: "map (\<lambda>x. or_empty (cell_text True (Text x))) hs = hs"
  by (simp add: cell_text_def or_empty_def)

lemma parse_exported:
  "parseExcel keep_empty (exportToCSV diffChars exportData) =
     filter (\<lambda>r. r \<noteq> [])
       (map (\<lambda>item. sheet_row keep_empty header_row (export_row diffChars item)) exportData)"
  by (simp add: parseExcel_def exportToCSV_def header_read_back comp_def)

text \<open>What the import makes of an exported sheet whose rows have a caption and an image
  path.\<close>

lemma round_trip_fields:
  assumes "\<forall>row \<in> set rows.
      original row \<noteq> [] \<and> trim (original row) \<noteq> [] \<and>
      imagePath row \<noteq> None \<and> imagePath row \<noteq> Some [] \<and>
      diff_contract (original row) (extractRewrittenText (Some (or_empty (rewritten row))))
        (diffChars (original row) (extractRewrittenText (Some (or_empty (rewritten row)))))"
  shows "map original (round_trip diffChars keep_empty uuidv4 rows) = map original rows \<and>
         map imagePath (round_trip diffChars keep_empty uuidv4 rows) = map imagePath rows \<and>
         map status (round_trip diffChars keep_empty uuidv4 rows) = map (\<lambda>row. Pending) rows \<and>
         map rewritten (round_trip diffChars keep_empty uuidv4 rows) = map (\<lambda>row. None) rows"
proof -
  define item where "item row =
      \<lparr>item_ID = row_id row, item_Original = original row,
       item_Rewritten = or_empty (rewritten row), item_ImagePath = or_empty (imagePath row),
       item_Status = status_text (status row), item_Error = or_empty (error row)\<rparr>"
    for row :: CaptionRow
  define J where "J row = sheet_row keep_empty header_row (export_row diffChars (item row))"
    for row
  have hd: "handleDownload rows = map item rows"
    by (simp add: handleDownload_def item_def)
  have r: "caption_text (J row) = original row \<and> image_path (J row) = imagePath row \<and>
      J row \<noteq> []" if "row \<in> set rows" for row
  proof -
    from assms that have a: "original row \<noteq> []" "imagePath row \<noteq> None"
      "imagePath row \<noteq> Some []"
      "diff_contract (original row) (extractRewrittenText (Some (or_empty (rewritten row))))
        (diffChars (original row) (extractRewrittenText (Some (or_empty (rewritten row)))))"
      by auto
    from a(2,3) obtain p where p: "imagePath row = Some p" "p \<noteq> []" by (cases "imagePath row") auto
    have "caption_text (J row) = item_Original (item row) \<and>
        image_path (J row) = Some (item_ImagePath (item row)) \<and> J row \<noteq> []"
      unfolding J_def
      by (rule exported_row) (use a p in \<open>simp_all add: item_def or_empty_def status_text_neq\<close>)
    with p show ?thesis by (simp add: item_def or_empty_def)
  qed
  have pe: "parseExcel keep_empty (exportToCSV diffChars (handleDownload rows)) = map J rows"
  proof -
    have "parseExcel keep_empty (exportToCSV diffChars (handleDownload rows)) =
        filter (\<lambda>r. r \<noteq> [])
          (map (\<lambda>it. sheet_row keep_empty header_row (export_row diffChars it)) (map item rows))"
      by (simp only: parse_exported hd)
    also have "\<dots> = filter (\<lambda>r. r \<noteq> []) (map J rows)"
    proof -
      have "J = (\<lambda>x. sheet_row keep_empty header_row (export_row diffChars (item x)))"
        by (rule ext) (simp add: J_def)
      then show ?thesis by (simp add: comp_def)
    qed
    also have "\<dots> = map J rows"
      using r by (simp add: filter_map comp_def)
    finally show ?thesis .
  qed
  have nb: "\<forall>jr \<in> set (map J rows). caption_text jr \<noteq> [] \<and> trim (caption_text jr) \<noteq> []"
    using r assms by auto
  note f = imported_fields [OF nb, of uuidv4]
  have rt: "round_trip diffChars keep_empty uuidv4 rows = processedData uuidv4 (map J rows)"
    by (simp add: round_trip_def pe)
  have m1: "map caption_text (map J rows) = map original rows" using r by simp
  have m2: "map image_path (map J rows) = map imagePath rows" using r by simp
  show ?thesis unfolding rt using f m1 m2 by (simp add: comp_def)
qed


lemma example_contract:
  "diff_contract (js ''ab'') (js ''ac'') (diffChars_model (js ''ab'') (js ''ac''))"
  by (simp add: diff_contract_def diffChars_model_def js_def mk_change_def kind_of_def)

lemma example_clean: "extractRewrittenText (Some (js ''ac'')) = js ''ac''"
  by (simp add: extractRewrittenText_def js_def markers_def after_marker_def is_space_def
      trim_def upper_ascii_def)

lemma example_nonblank: "js ''ab'' \<noteq> [] \<and> trim (js ''ab'') \<noteq> [] \<and> js ''p'' \<noteq> []"
  by (simp add: trim_def is_space_def js_def)


text \<open>
  Claim C3, as amended. The sheet is read back by the model of the spreadsheet library
  (a cell is read back with the text written to it, a cell with no value is left out),
  and the diffs meet the contract of the diff library. For every row set whose rows
  have an \<open>original\<close> that is not blank and an \<open>imagePath\<close> that is not empty,
  exporting and importing again gives one row for each exported row, in the same order,
  with the same \<open>original\<close> and the same \<open>imagePath\<close>; \<open>rewritten\<close> is \<open>null\<close> and
  \<open>status\<close> is \<open>pending\<close> in every row, whatever they were in the exported rows.
\<close>

theorem round_trip_keeps_original_and_imagePath:
  assumes "\<forall>row \<in> set rows.
      original row \<noteq> [] \<and> trim (original row) \<noteq> [] \<and>
      imagePath row \<noteq> None \<and> imagePath row \<noteq> Some [] \<and>
      diff_contract (original row) (extractRewrittenText (Some (or_empty (rewritten row))))
        (diffChars (original row) (extractRewrittenText (Some (or_empty (rewritten row)))))"
  shows "map original (round_trip diffChars keep_empty uuidv4 rows) = map original rows \<and>
         map imagePath (round_trip diffChars keep_empty uuidv4 rows) = map imagePath rows \<and>
         map status (round_trip diffChars keep_empty uuidv4 rows) = map (\<lambda>row. Pending) rows \<and>
         map rewritten (round_trip diffChars keep_empty uuidv4 rows) = map (\<lambda>row. None) rows"
  using assms by (rule round_trip_fields)

lemma example_row_ok:
  "\<forall>row \<in> set [\<lparr>row_id = js ''r1'', original = js ''ab'', rewritten = Some (js ''ac''),
       status = Completed, imagePath = Some (js ''p''), imageData = None, error = None\<rparr>].
      original row \<noteq> [] \<and> trim (original row) \<noteq> [] \<and>
      imagePath row \<noteq> None \<and> imagePath row \<noteq> Some [] \<and>
      diff_contract (original row) (extractRewrittenText (Some (or_empty (rewritten row))))
        (diffChars_model (original row)
           (extractRewrittenText (Some (or_empty (rewritten row)))))"
  using example_nonblank example_contract by (simp add: or_empty_def example_clean)

text \<open>A completed row with the caption \<open>ab\<close>, the rewritten caption \<open>ac\<close> and the
  image path \<open>p\<close>.\<close>

theorem round_trip_keeps_original_and_imagePath_witness:
  "map original (round_trip diffChars_model True (\<lambda>i. [i])
     [\<lparr>row_id = js ''r1'', original = js ''ab'', rewritten = Some (js ''ac''),
       status = Completed, imagePath = Some (js ''p''), imageData = None, error = None\<rparr>]) =
     [js ''ab''] \<and>
   map imagePath (round_trip diffChars_model True (\<lambda>i. [i])
     [\<lparr>row_id = js ''r1'', original = js ''ab'', rewritten = Some (js ''ac''),
       status = Completed, imagePath = Some (js ''p''), imageData = None, error = None\<rparr>]) =
     [Some (js ''p'')]"
proof -
  let ?rows = "[\<lparr>row_id = js ''r1'', original = js ''ab'', rewritten = Some (js ''ac''),
       status = Completed, imagePath = Some (js ''p''), imageData = None, error = None\<rparr>]"
  note t = round_trip_keeps_original_and_imagePath
    [where diffChars = diffChars_model and rows = ?rows and keep_empty = True,
       OF example_row_ok]
  have a: "map original (round_trip diffChars_model True (\<lambda>i. [i]) ?rows) = [js ''ab'']"
    using t [THEN conjunct1] by simp
  have b: "map imagePath (round_trip diffChars_model True (\<lambda>i. [i]) ?rows) = [Some (js ''p'')]"
    using t [THEN conjunct2, THEN conjunct1] by simp
  from a b show ?thesis ..
qed

text \<open>
  The claim as stated fails for \<open>rewritten\<close> and \<open>status\<close>: the import gives every
  row \<open>rewritten: null\<close> and \<open>status: 'pending'\<close>, so the completed row with the
  rewritten caption \<open>ac\<close> comes back pending and without it.
\<close>

theorem round_trip_resets_status_counterexample:
  "status \<lparr>row_id = js ''r1'', original = js ''ab'', rewritten = Some (js ''ac''),
       status = Completed, imagePath = Some (js ''p''), imageData = None, error = None\<rparr> =
     Completed \<and>
   map status (round_trip diffChars_model True (\<lambda>i. [i])
     [\<lparr>row_id = js ''r1'', original = js ''ab'', rewritten = Some (js ''ac''),
       status = Completed, imagePath = Some (js ''p''), imageData = None, error = None\<rparr>]) =
     [Pending] \<and>
   map rewritten (round_trip diffChars_model True (\<lambda>i. [i])
     [\<lparr>row_id = js ''r1'', original = js ''ab'', rewritten = Some (js ''ac''),
       status = Completed, imagePath = Some (js ''p''), imageData = None, error = None\<rparr>]) =
     [None]"
proof -
  let ?rows = "[\<lparr>row_id = js ''r1'', original = js ''ab'', rewritten = Some (js ''ac''),
       status = Completed, imagePath = Some (js ''p''), imageData = None, error = None\<rparr>]"
  note t = round_trip_fields
    [where diffChars = diffChars_model and rows = ?rows and keep_empty = True,
       OF example_row_ok]
  have a: "map status (round_trip diffChars_model True (\<lambda>i. [i]) ?rows) = [Pending]"
    using t [THEN conjunct2, THEN conjunct2, THEN conjunct1] by simp
  have b: "map rewritten (round_trip diffChars_model True (\<lambda>i. [i]) ?rows) = [None]"
    using t [THEN conjunct2, THEN conjunct2, THEN conjunct2] by simp
  from a b show ?thesis by simp
qed

end
